theory Spec2Isabelle
  imports Complex_Main
begin

section \<open>Values and errors\<close>

text \<open>
  The exceptions that the modelled code can raise: a read of an instance attribute that
  was never assigned, \<^verbatim>\<open>random.sample\<close> asked for more elements than the
  population holds, and a list index out of range.
\<close>

datatype error = AttributeError | ValueError | IndexError

text \<open>
  Fitness values are Python floats.  The model takes the finite ones as reals and keeps
  \<^verbatim>\<open>float('inf')\<close>, the value a fresh candidate starts with, as a separate
  top element.  NaN and rounding are outside the model.
\<close>

datatype fitness = Fin real | PInf

instantiation fitness :: linorder
begin

fun less_eq_fitness :: "fitness \<Rightarrow> fitness \<Rightarrow> bool" where
  "less_eq_fitness (Fin a) (Fin b) = (a \<le> b)"
| "less_eq_fitness (Fin a) PInf = True"
| "less_eq_fitness PInf (Fin b) = False"
| "less_eq_fitness PInf PInf = True"

fun less_fitness :: "fitness \<Rightarrow> fitness \<Rightarrow> bool" where
  "less_fitness (Fin a) (Fin b) = (a < b)"
| "less_fitness (Fin a) PInf = True"
| "less_fitness PInf (Fin b) = False"
| "less_fitness PInf PInf = False"

instance
proof
  fix x y z :: fitness
  show "(x < y) = (x \<le> y \<and> \<not> y \<le> x)"
    by (cases x; cases y) auto
  show "x \<le> x"
    by (cases x) auto
  show "x \<le> y \<Longrightarrow> y \<le> z \<Longrightarrow> x \<le> z"
    by (cases x; cases y; cases z) auto
  show "x \<le> y \<Longrightarrow> y \<le> x \<Longrightarrow> x = y"
    by (cases x; cases y) auto
  show "x \<le> y \<or> y \<le> x"
    by (cases x; cases y) auto
qed

end

section \<open>The random source\<close>

text \<open>
  The module \<^verbatim>\<open>random\<close> is global mutable state.  It is modelled as an infinite
  sequence of raw words together with the position of the next unread word; every call
  consumes words and returns the advanced source.
\<close>

record rng =
  draws :: "nat \<Rightarrow> nat"
  pos :: nat

text \<open>\<^verbatim>\<open>rnd.random()\<close>: a multiple of \<open>2\<^sup>-\<^sup>5\<^sup>3\<close> in \<open>[0, 1)\<close>.\<close>

definition rnd_random :: "rng \<Rightarrow> real \<times> rng" where
  "rnd_random g = (real (draws g (pos g) mod 2 ^ 53) / 2 ^ 53, g\<lparr>pos := Suc (pos g)\<rparr>)"

text \<open>
  \<^verbatim>\<open>rnd.sample(population, 3)\<close>: three elements chosen without replacement.  The
  library routine is not part of the repository; the model picks a position, takes the
  element out of the pool, and repeats, and raises \<^verbatim>\<open>ValueError\<close> when the pool
  holds fewer than three elements, as the library does.  The three-element list it
  returns is a triple here, so that \<^verbatim>\<open>r[0]\<close>, \<^verbatim>\<open>r[1]\<close>, \<^verbatim>\<open>r[2]\<close> are its
  components.
\<close>

definition take_out :: "nat \<Rightarrow> 'a list \<Rightarrow> 'a list" where
  "take_out j xs = take j xs @ drop (Suc j) xs"

definition rnd_sample :: "nat list \<Rightarrow> rng \<Rightarrow> error + ((nat \<times> nat \<times> nat) \<times> rng)" where
  "rnd_sample population g =
     (let n = length population in
      if n < 3 then Inl ValueError
      else
        let j0 = draws g (pos g) mod n;
            pool1 = take_out j0 population;
            j1 = draws g (pos g + 1) mod (n - 1);
            pool2 = take_out j1 pool1;
            j2 = draws g (pos g + 2) mod (n - 2)
        in Inr ((population ! j0, pool1 ! j1, pool2 ! j2), g\<lparr>pos := pos g + 3\<rparr>))"

text \<open>\<^verbatim>\<open>int(x)\<close> on a float truncates towards zero.\<close>

definition py_int :: "real \<Rightarrow> int" where
  "py_int x = (if 0 \<le> x then \<lfloor>x\<rfloor> else \<lceil>x\<rceil>)"

section \<open>Candidates: class SolutionjDE\<close>

record SolutionjDE =
  sol_D :: int
  sol_LB :: real
  sol_UB :: real
  sol_F :: real
  sol_Cr :: real
  Solution :: "real list"
  Fitness :: fitness

text \<open>The list comprehension of \<^verbatim>\<open>generateSolution\<close>, one draw per dimension.\<close>

fun uniform_vector :: "nat \<Rightarrow> real \<Rightarrow> real \<Rightarrow> rng \<Rightarrow> real list \<times> rng" where
  "uniform_vector 0 lb ub g = ([], g)"
| "uniform_vector (Suc n) lb ub g =
     (let (u, g1) = rnd_random g;
          (xs, g2) = uniform_vector n lb ub g1
      in ((lb + (ub - lb) * u) # xs, g2))"

definition generateSolution :: "SolutionjDE \<Rightarrow> rng \<Rightarrow> SolutionjDE \<times> rng" where
  "generateSolution s g =
     (let (xs, g') = uniform_vector (nat (sol_D s)) (sol_LB s) (sol_UB s) g
      in (s\<lparr>Solution := xs\<rparr>, g'))"

text \<open>The constructor \<^verbatim>\<open>SolutionjDE(D, LB, UB)\<close>.\<close>

definition SolutionjDE_init :: "int \<Rightarrow> real \<Rightarrow> real \<Rightarrow> rng \<Rightarrow> SolutionjDE \<times> rng" where
  "SolutionjDE_init D LB UB g =
     generateSolution
       \<lparr>sol_D = D, sol_LB = LB, sol_UB = UB, sol_F = 0.5, sol_Cr = 0.9,
        Solution = [], Fitness = PInf\<rparr> g"

text \<open>
  \<^verbatim>\<open>evaluate\<close> calls the objective bound to the class, here passed as an argument.
\<close>

definition evaluate :: "(int \<Rightarrow> real list \<Rightarrow> fitness) \<Rightarrow> SolutionjDE \<Rightarrow> SolutionjDE" where
  "evaluate f s = s\<lparr>Fitness := f (sol_D s) (Solution s)\<rparr>"

text \<open>
  \<^verbatim>\<open>repair\<close>: the loop runs over \<^verbatim>\<open>range(self.D)\<close>, and the two tests are
  sequential \<^verbatim>\<open>if\<close>s, the second reading the component the first may have written.
  An index beyond the vector raises \<^verbatim>\<open>IndexError\<close>.
\<close>

definition repair_at :: "nat \<Rightarrow> SolutionjDE \<Rightarrow> SolutionjDE" where
  "repair_at i s =
     (let s1 = (if Solution s ! i > sol_UB s
                then s\<lparr>Solution := (Solution s)[i := sol_UB s]\<rparr> else s)
      in if Solution s1 ! i < sol_LB s1
         then s1\<lparr>Solution := (Solution s1)[i := sol_LB s1]\<rparr> else s1)"

fun repair_loop :: "nat list \<Rightarrow> SolutionjDE \<Rightarrow> error + SolutionjDE" where
  "repair_loop [] s = Inr s"
| "repair_loop (i # is) s =
     (if i < length (Solution s) then repair_loop is (repair_at i s) else Inl IndexError)"

definition repair :: "SolutionjDE \<Rightarrow> error + SolutionjDE" where
  "repair s = repair_loop [0..<nat (sol_D s)] s"

section \<open>The engine: class SelfAdaptiveDifferentialEvolutionAlgorithm\<close>

text \<open>
  The instance attributes.  \<^verbatim>\<open>generationStep\<close> reads \<^verbatim>\<open>self.Tao\<close>,
  \<^verbatim>\<open>self.F\<close> and \<^verbatim>\<open>self.Cr\<close>, which the constructor never assigns: each is an
  option, \<open>None\<close> for an attribute that does not exist.  \<open>FuncEval\<close> is the objective
  that the constructor binds to the candidate class.  \<open>evaluated\<close> is a ghost field: the
  candidates on which \<^verbatim>\<open>evaluate\<close> has been called, in call order, each as it was
  right after the call.
\<close>

record engine =
  self_D :: int
  self_Np :: int
  self_nFES :: int
  self_Lower :: real
  self_Upper :: real
  self_Population :: "SolutionjDE list"
  self_bestSolution :: SolutionjDE
  self_Tao :: "real option"
  self_F :: "real option"
  self_Cr :: "real option"
  FuncEval :: "int \<Rightarrow> real list \<Rightarrow> fitness"
  evaluated :: "SolutionjDE list"

text \<open>
  A computation that may raise or may not return: \<open>None\<close> is a loop that runs forever,
  \<open>Some (Inl err)\<close> an exception, \<open>Some (Inr v)\<close> a normal return.
\<close>

type_synonym 'a result = "(error + 'a) option"

definition attr :: "'a option \<Rightarrow> error + 'a" where
  "attr a = (case a of None \<Rightarrow> Inl AttributeError | Some v \<Rightarrow> Inr v)"

definition item :: "'a list \<Rightarrow> nat \<Rightarrow> error + 'a" where
  "item xs i = (if i < length xs then Inr (xs ! i) else Inl IndexError)"

definition bind_err :: "error + 'a \<Rightarrow> ('a \<Rightarrow> error + 'b) \<Rightarrow> error + 'b" where
  "bind_err m k = (case m of Inl err \<Rightarrow> Inl err | Inr v \<Rightarrow> k v)"

definition bind_res :: "'a result \<Rightarrow> ('a \<Rightarrow> 'b result) \<Rightarrow> 'b result" where
  "bind_res m k = (case m of None \<Rightarrow> None | Some (Inl err) \<Rightarrow> Some (Inl err) | Some (Inr v) \<Rightarrow> k v)"

text \<open>
  The constructor stores five of its parameters, binds the objective and builds the
  initial best candidate.  \<open>F\<close> and \<open>Cr\<close> are accepted and dropped.  It has no
  \<^verbatim>\<open>raise\<close>; the result is a sum only so that acceptance and rejection can be told
  apart.
\<close>

definition SelfAdaptiveDifferentialEvolutionAlgorithm ::
  "int \<Rightarrow> int \<Rightarrow> int \<Rightarrow> real \<Rightarrow> real \<Rightarrow> real \<Rightarrow> real \<Rightarrow> (int \<Rightarrow> real list \<Rightarrow> fitness) \<Rightarrow> rng
     \<Rightarrow> error + (engine \<times> rng)" where
  "SelfAdaptiveDifferentialEvolutionAlgorithm D NP nFES F Cr Lower Upper function g =
     (let (b, g') = SolutionjDE_init D Lower Upper g
      in Inr (\<lparr>self_D = D, self_Np = NP, self_nFES = nFES, self_Lower = Lower,
               self_Upper = Upper, self_Population = [], self_bestSolution = b,
               self_Tao = None, self_F = None, self_Cr = None,
               FuncEval = function, evaluated = []\<rparr>, g'))"

text \<open>
  The best-so-far update, written twice in the source (in \<^verbatim>\<open>evalPopulation\<close> and in
  \<^verbatim>\<open>generationStep\<close>): a strict comparison, then a deep copy.
\<close>

definition track_best :: "SolutionjDE \<Rightarrow> engine \<Rightarrow> engine" where
  "track_best p e =
     (if Fitness p < Fitness (self_bestSolution e) then e\<lparr>self_bestSolution := p\<rparr> else e)"

text \<open>
  \<^verbatim>\<open>evalPopulation\<close> evaluates the candidates in place, so the population afterwards
  holds the evaluated candidates.
\<close>

fun evalPopulation_loop :: "SolutionjDE list \<Rightarrow> engine \<Rightarrow> SolutionjDE list \<times> engine" where
  "evalPopulation_loop [] e = ([], e)"
| "evalPopulation_loop (p # ps) e =
     (let p' = evaluate (FuncEval e) p;
          e1 = track_best p' (e\<lparr>evaluated := evaluated e @ [p']\<rparr>);
          (ps', e2) = evalPopulation_loop ps e1
      in (p' # ps', e2))"

definition evalPopulation :: "engine \<Rightarrow> engine" where
  "evalPopulation e =
     (let (ps, e') = evalPopulation_loop (self_Population e) e
      in e'\<lparr>self_Population := ps\<rparr>)"

fun initPopulation_loop :: "nat \<Rightarrow> engine \<Rightarrow> rng \<Rightarrow> engine \<times> rng" where
  "initPopulation_loop 0 e g = (e, g)"
| "initPopulation_loop (Suc n) e g =
     (let (s, g1) = SolutionjDE_init (self_D e) (self_Lower e) (self_Upper e) g
      in initPopulation_loop n (e\<lparr>self_Population := self_Population e @ [s]\<rparr>) g1)"

definition initPopulation :: "engine \<Rightarrow> rng \<Rightarrow> engine \<times> rng" where
  "initPopulation e g = initPopulation_loop (nat (self_Np e)) e g"

subsection \<open>One offspring\<close>

text \<open>
  Lines 78 to 86.  The draw on the left of \<^verbatim>\<open><\<close> is taken before
  \<^verbatim>\<open>self.Tao\<close> is read.
\<close>

definition adapt_F :: "engine \<Rightarrow> SolutionjDE list \<Rightarrow> nat \<Rightarrow> SolutionjDE \<Rightarrow> rng \<Rightarrow> error + (SolutionjDE \<times> rng)" where
  "adapt_F e Population i newSolution g =
     (let (u, g1) = rnd_random g in
      bind_err (attr (self_Tao e)) (\<lambda>tao.
        if u < tao then (let (v, g2) = rnd_random g1 in Inr (newSolution\<lparr>sol_F := v\<rparr>, g2))
        else bind_err (item Population i) (\<lambda>p. Inr (newSolution\<lparr>sol_F := sol_F p\<rparr>, g1))))"

definition adapt_Cr :: "engine \<Rightarrow> SolutionjDE list \<Rightarrow> nat \<Rightarrow> SolutionjDE \<Rightarrow> rng \<Rightarrow> error + (SolutionjDE \<times> rng)" where
  "adapt_Cr e Population i newSolution g =
     (let (u, g1) = rnd_random g in
      bind_err (attr (self_Tao e)) (\<lambda>tao.
        if u < tao then (let (v, g2) = rnd_random g1 in Inr (newSolution\<lparr>sol_Cr := v\<rparr>, g2))
        else bind_err (item Population i) (\<lambda>p. Inr (newSolution\<lparr>sol_Cr := sol_Cr p\<rparr>, g1))))"

text \<open>Lines 88 to 90: sample a triple, and sample again while it holds \<open>i\<close>.\<close>

definition in_triple :: "nat \<Rightarrow> nat \<times> nat \<times> nat \<Rightarrow> bool" where
  "in_triple i r = (case r of (r0, r1, r2) \<Rightarrow> i = r0 \<or> i = r1 \<or> i = r2)"

partial_function (option) resample ::
  "nat list \<Rightarrow> nat \<Rightarrow> nat \<times> nat \<times> nat \<Rightarrow> rng \<Rightarrow> ((nat \<times> nat \<times> nat) \<times> rng) result" where
  "resample population i r g =
     (if in_triple i r
      then (case rnd_sample population g of
              Inl err \<Rightarrow> Some (Inl err)
            | Inr (r', g') \<Rightarrow> resample population i r' g')
      else Some (Inr (r, g)))"

definition donors :: "int \<Rightarrow> nat \<Rightarrow> rng \<Rightarrow> ((nat \<times> nat \<times> nat) \<times> rng) result" where
  "donors Np i g =
     (case rnd_sample [0..<nat Np] g of
        Inl err \<Rightarrow> Some (Inl err)
      | Inr (r, g') \<Rightarrow> resample [0..<nat Np] i r g')"

text \<open>Line 91.\<close>

definition draw_jrand :: "int \<Rightarrow> rng \<Rightarrow> int \<times> rng" where
  "draw_jrand Np g = (let (u, g1) = rnd_random g in (py_int (u * real_of_int Np), g1))"

text \<open>
  Lines 93 to 98.  The right-hand side of line 95 is evaluated left to right, so a bad
  donor index is reported before a missing \<^verbatim>\<open>self.F\<close>.
\<close>

definition mutant :: "engine \<Rightarrow> SolutionjDE list \<Rightarrow> nat \<times> nat \<times> nat \<Rightarrow> nat \<Rightarrow> error + real" where
  "mutant e Population r j =
     (case r of (r0, r1, r2) \<Rightarrow>
       bind_err (item Population r0) (\<lambda>p0.
       bind_err (item (Solution p0) j) (\<lambda>a.
       bind_err (attr (self_F e)) (\<lambda>f.
       bind_err (item Population r1) (\<lambda>p1.
       bind_err (item (Solution p1) j) (\<lambda>b.
       bind_err (item Population r2) (\<lambda>p2.
       bind_err (item (Solution p2) j) (\<lambda>c.
         Inr (a + f * (b - c))))))))))"

definition inherited :: "SolutionjDE list \<Rightarrow> nat \<Rightarrow> nat \<Rightarrow> error + real" where
  "inherited Population i j =
     bind_err (item Population i) (\<lambda>p. item (Solution p) j)"

fun crossover ::
  "engine \<Rightarrow> SolutionjDE list \<Rightarrow> nat \<Rightarrow> nat \<times> nat \<times> nat \<Rightarrow> int \<Rightarrow> nat list \<Rightarrow> SolutionjDE \<Rightarrow> rng
     \<Rightarrow> error + (SolutionjDE \<times> rng)" where
  "crossover e Population i r jrand [] newSolution g = Inr (newSolution, g)"
| "crossover e Population i r jrand (j # js) newSolution g =
     (let (u, g1) = rnd_random g in
      bind_err (attr (self_Cr e)) (\<lambda>cr.
      bind_err (if u < cr \<or> int j = jrand then mutant e Population r j
                else inherited Population i j) (\<lambda>v.
        if j < length (Solution newSolution)
        then crossover e Population i r jrand js
               (newSolution\<lparr>Solution := (Solution newSolution)[j := v]\<rparr>) g1
        else Inl IndexError)))"

text \<open>Lines 76 to 100: the offspring for parent index \<open>i\<close>, repaired and evaluated.\<close>

definition make_offspring :: "engine \<Rightarrow> SolutionjDE list \<Rightarrow> nat \<Rightarrow> rng \<Rightarrow> (SolutionjDE \<times> rng) result" where
  "make_offspring e Population i g =
     (let (s0, g0) = SolutionjDE_init (self_D e) (self_Lower e) (self_Upper e) g in
      bind_res (Some (adapt_F e Population i s0 g0)) (\<lambda>(s1, g1).
      bind_res (Some (adapt_Cr e Population i s1 g1)) (\<lambda>(s2, g2).
      bind_res (donors (self_Np e) i g2) (\<lambda>(r, g3).
        let (jrand, g4) = draw_jrand (self_Np e) g3 in
        bind_res (Some (crossover e Population i r jrand [0..<nat (self_D e)] s2 g4)) (\<lambda>(s3, g5).
        bind_res (Some (repair s3)) (\<lambda>s4.
          Some (Inr (evaluate (FuncEval e) s4, g5))))))))"

subsection \<open>One generation and the main loop\<close>

text \<open>
  Lines 75 and 102 to 107.  The selection test reads the parent's fitness from
  \<^verbatim>\<open>self.Population[i]\<close>, and the survivor is taken from the argument
  \<^verbatim>\<open>Population[i]\<close>; \<^verbatim>\<open>run\<close> passes \<^verbatim>\<open>self.Population\<close> as the argument.
\<close>

fun generationStep_loop ::
  "nat list \<Rightarrow> engine \<Rightarrow> SolutionjDE list \<Rightarrow> SolutionjDE list \<Rightarrow> rng
     \<Rightarrow> (SolutionjDE list \<times> engine \<times> rng) result" where
  "generationStep_loop [] e Population newPopulation g = Some (Inr (newPopulation, e, g))"
| "generationStep_loop (i # is) e Population newPopulation g =
     bind_res (make_offspring e Population i g) (\<lambda>(newSolution, g1).
       let e1 = track_best newSolution (e\<lparr>evaluated := evaluated e @ [newSolution]\<rparr>) in
       bind_res (Some (item (self_Population e1) i)) (\<lambda>parent.
         if Fitness newSolution < Fitness parent
         then generationStep_loop is e1 Population (newPopulation @ [newSolution]) g1
         else bind_res (Some (item Population i)) (\<lambda>p.
                generationStep_loop is e1 Population (newPopulation @ [p]) g1)))"

definition generationStep :: "engine \<Rightarrow> SolutionjDE list \<Rightarrow> rng \<Rightarrow> (SolutionjDE list \<times> engine \<times> rng) result" where
  "generationStep e Population g = generationStep_loop [0..<nat (self_Np e)] e Population [] g"

text \<open>Lines 114 to 116, with \<open>FEs\<close> as an argument.\<close>

partial_function (option) run_loop :: "engine \<Rightarrow> int \<Rightarrow> rng \<Rightarrow> (engine \<times> int \<times> rng) result" where
  "run_loop e FEs g =
     (if FEs \<le> self_nFES e
      then (case generationStep e (self_Population e) g of
              None \<Rightarrow> None
            | Some (Inl err) \<Rightarrow> Some (Inl err)
            | Some (Inr (newPopulation, e', g')) \<Rightarrow>
                run_loop (e'\<lparr>self_Population := newPopulation\<rparr>) (FEs + self_Np e') g')
      else Some (Inr (e, FEs, g)))"

text \<open>
  \<^verbatim>\<open>run\<close> returns the best fitness; the model returns with it the engine and the
  random source as the call leaves them.
\<close>

definition run :: "engine \<Rightarrow> rng \<Rightarrow> (fitness \<times> engine \<times> rng) result" where
  "run e g =
     (let (e1, g1) = initPopulation e g;
          e2 = evalPopulation e1
      in bind_res (run_loop e2 (self_Np e2) g1) (\<lambda>(e3, FEs, g3).
           Some (Inr (Fitness (self_bestSolution e3), e3, g3))))"

section \<open>Auxiliary definitions\<close>

text \<open>What the two tests of \<^verbatim>\<open>repair\<close> do to one component when \<open>lb \<le> ub\<close>.\<close>

definition clamp :: "real \<Rightarrow> real \<Rightarrow> real \<Rightarrow> real" where
  "clamp lb ub x = (if x > ub then ub else if x < lb then lb else x)"

text \<open>
  Concrete inputs for the examples: the sum of squares as objective, and a random
  source whose every word is \<open>0\<close>, so that every \<^verbatim>\<open>rnd.random()\<close> returns \<open>0\<close>.
\<close>

definition sphere :: "int \<Rightarrow> real list \<Rightarrow> fitness" where
  "sphere D xs = Fin (sum_list (map (\<lambda>x. x * x) xs))"

definition zeros :: "nat \<Rightarrow> nat" where
  "zeros n = 0"

text \<open>
  The selection of lines 104 to 107 for offspring \<open>fst oi\<close> at index \<open>snd oi\<close>, once both
  index reads have succeeded.
\<close>

definition survivor :: "SolutionjDE list \<Rightarrow> SolutionjDE list \<Rightarrow> SolutionjDE \<times> nat \<Rightarrow> SolutionjDE" where
  "survivor selfPopulation Population oi =
     (if Fitness (fst oi) < Fitness (selfPopulation ! snd oi) then fst oi else Population ! snd oi)"

text \<open>A donor triple: pairwise distinct members of the sampled population.\<close>

definition good_triple :: "nat list \<Rightarrow> nat \<times> nat \<times> nat \<Rightarrow> bool" where
  "good_triple population r =
     (case r of (r0, r1, r2) \<Rightarrow>
        r0 \<noteq> r1 \<and> r0 \<noteq> r2 \<and> r1 \<noteq> r2
        \<and> r0 \<in> set population \<and> r1 \<in> set population \<and> r2 \<in> set population)"

text \<open>
  A worked run with \<open>D = 1\<close>, \<open>NP = 4\<close>, \<open>nFES = 4\<close>, bounds \<open>[-1, 1]\<close> and the sum of
  squares as objective.  \<open>tape\<close> lists the raw words the run consumes: one for the
  initial best candidate, four for the population, and eight per offspring (its
  throw-away vector, the two self-adaptation tests, the donor triple, \<open>jrand\<close>, and the
  crossover test).  \<open>engine0\<close> is the engine as the constructor returns it, with the three
  attributes that the constructor leaves out assigned afterwards; \<open>engine1\<close> is the engine
  after initialisation and evaluation, \<open>engine2\<close> after the first generation.
\<close>

definition tape :: "nat \<Rightarrow> nat" where
  "tape n =
     (if n < 37 then
        [2 ^ 52,
         3 * 2 ^ 51, 2 ^ 51, 7 * 2 ^ 50, 3 * 2 ^ 50,
         0, 2 ^ 52, 2 ^ 52, 1, 1, 1, 0, 0,
         0, 2 ^ 52, 2 ^ 52, 0, 1, 1, 2 ^ 52, 15 * 2 ^ 49,
         0, 2 ^ 52, 2 ^ 52, 0, 0, 1, 0, 0,
         0, 2 ^ 52, 2 ^ 52, 0, 0, 0, 0, 0] ! n
      else 0)"

definition cand :: "real \<Rightarrow> fitness \<Rightarrow> SolutionjDE" where
  "cand x f = \<lparr>sol_D = 1, sol_LB = -1, sol_UB = 1, sol_F = 1/2, sol_Cr = 9/10,
               Solution = [x], Fitness = f\<rparr>"

definition pop0 :: "SolutionjDE list" where
  "pop0 = [cand (1/2) (Fin (1/4)), cand (-1/2) (Fin (1/4)), cand (3/4) (Fin (9/16)), cand (-1/4) (Fin (1/16))]"

definition engine0 :: engine where
  "engine0 =
     (fst (projr (SelfAdaptiveDifferentialEvolutionAlgorithm 1 4 4 0.5 0.9 (-1) 1 sphere
                    \<lparr>draws = tape, pos = 0\<rparr>)))
       \<lparr>self_Tao := Some (1/10), self_F := Some (1/2), self_Cr := Some (9/10)\<rparr>"

definition engine1 :: engine where
  "engine1 = \<lparr>self_D = 1, self_Np = 4, self_nFES = 4, self_Lower = -1, self_Upper = 1,
       self_Population = pop0, self_bestSolution = cand (-1/4) (Fin (1/16)),
       self_Tao = Some (1/10), self_F = Some (1/2), self_Cr = Some (9/10),
       FuncEval = sphere, evaluated = pop0\<rparr>"

definition pop1 :: "SolutionjDE list" where
  "pop1 = [cand 0 (Fin 0), cand (-1/2) (Fin (1/4)), cand (3/8) (Fin (9/64)), cand (-1/8) (Fin (1/64))]"

definition offs1 :: "SolutionjDE list" where
  "offs1 = [cand 0 (Fin 0), cand (-1/2) (Fin (1/4)), cand (3/8) (Fin (9/64)), cand (-1/8) (Fin (1/64))]"

definition engine2 :: engine where
  "engine2 = engine1\<lparr>self_bestSolution := cand 0 (Fin 0), evaluated := pop0 @ offs1\<rparr>"

text \<open>
  The words consumed by one offspring at index \<open>0\<close> whose two self-adaptation tests
  succeed: the throw-away vector, the test and the new \<open>F = 1/4\<close>, the test and the new
  \<open>Cr = 0\<close>, the donor triple, \<open>jrand\<close>, and the crossover test.
\<close>

definition tape3 :: "nat \<Rightarrow> nat" where
  "tape3 n = (if n < 10 then [0, 0, 2 ^ 51, 0, 0, 1, 1, 1, 2 ^ 52, 2 ^ 52] ! n else 0)"

text \<open>
  The triple that the \<open>m\<close>-th call of \<^verbatim>\<open>rnd.sample\<close> from source \<open>g\<close> returns, each call
  reading three words.
\<close>

definition sample_at :: "nat list \<Rightarrow> rng \<Rightarrow> nat \<Rightarrow> nat \<times> nat \<times> nat" where
  "sample_at population g m = fst (projr (rnd_sample population (g\<lparr>pos := pos g + 3 * m\<rparr>)))"

text \<open>
  The words of two donor samples for parent index \<open>0\<close> out of four: the first sample is
  \<open>(0, 2, 3)\<close> and holds the parent index, the second is \<open>(1, 2, 3)\<close>.
\<close>

definition tape4 :: "nat \<Rightarrow> nat" where
  "tape4 n = (if n < 6 then [0, 1, 1, 1, 1, 1] ! n else 0)"

text \<open>The update of the best candidate, on candidates alone.\<close>

definition keep_best :: "SolutionjDE \<Rightarrow> SolutionjDE \<Rightarrow> SolutionjDE" where
  "keep_best p b = (if Fitness p < Fitness b then p else b)"

text \<open>
  \<open>b'\<close> is the best candidate after the candidates \<open>new\<close> were evaluated in this order,
  starting from the best candidate \<open>b\<close>: either no new fitness is below that of \<open>b\<close> and
  \<open>b\<close> stays, or \<open>b'\<close> is the first of the new candidates that attains their least
  fitness, which is below that of \<open>b\<close>.  Among equal fitnesses the earlier candidate wins.
\<close>

definition earliest_least :: "SolutionjDE \<Rightarrow> SolutionjDE list \<Rightarrow> SolutionjDE \<Rightarrow> bool" where
  "earliest_least b new b' \<longleftrightarrow>
     ((\<forall>p \<in> set new. Fitness b \<le> Fitness p) \<and> b' = b)
   \<or> (\<exists>k < length new.
          b' = new ! k \<and> Fitness (new ! k) < Fitness b
        \<and> (\<forall>j < k. Fitness (new ! k) < Fitness (new ! j))
        \<and> (\<forall>j < length new. Fitness (new ! k) \<le> Fitness (new ! j)))"

section \<open>Lemmas\<close>

subsection \<open>Repair\<close>

lemma clamp_idem: "lb \<le> ub \<Longrightarrow> clamp lb ub (clamp lb ub x) = clamp lb ub x"
  by (simp add: clamp_def)

lemma clamp_range: "lb \<le> ub \<Longrightarrow> lb \<le> clamp lb ub x \<and> clamp lb ub x \<le> ub"
  by (simp add: clamp_def)

lemma repair_at_eq:
  assumes "sol_LB s \<le> sol_UB s" "i < length (Solution s)"
  shows "repair_at i s = s\<lparr>Solution := (Solution s)[i := clamp (sol_LB s) (sol_UB s) (Solution s ! i)]\<rparr>"
  using assms by (auto simp: repair_at_def clamp_def Let_def)

lemma repair_loop_eq:
  assumes "sol_LB s \<le> sol_UB s" "\<forall>i \<in> set is. i < length (Solution s)"
  shows "repair_loop is s =
           Inr (s\<lparr>Solution := map (\<lambda>j. if j \<in> set is then clamp (sol_LB s) (sol_UB s) (Solution s ! j)
                                         else Solution s ! j) [0..<length (Solution s)]\<rparr>)"
  using assms
proof (induction "is" arbitrary: s)
  case Nil
  have "map (\<lambda>j. Solution s ! j) [0..<length (Solution s)] = Solution s"
    by (simp add: map_nth)
  then show ?case by simp
next
  case (Cons i "is")
  let ?t = "repair_at i s"
  have t: "?t = s\<lparr>Solution := (Solution s)[i := clamp (sol_LB s) (sol_UB s) (Solution s ! i)]\<rparr>"
    using Cons.prems by (simp add: repair_at_eq)
  have "repair_loop is ?t = Inr (?t\<lparr>Solution := map (\<lambda>j. if j \<in> set is then clamp (sol_LB ?t) (sol_UB ?t) (Solution ?t ! j)
                                         else Solution ?t ! j) [0..<length (Solution ?t)]\<rparr>)"
    by (rule Cons.IH) (use Cons.prems t in auto)
  moreover have "map (\<lambda>j. if j \<in> set is then clamp (sol_LB ?t) (sol_UB ?t) (Solution ?t ! j)
                                         else Solution ?t ! j) [0..<length (Solution ?t)]
     = map (\<lambda>j. if j \<in> set (i # is) then clamp (sol_LB s) (sol_UB s) (Solution s ! j)
                                         else Solution s ! j) [0..<length (Solution s)]"
    using Cons.prems by (auto simp: t nth_list_update clamp_idem)
  ultimately show ?case using Cons.prems by (simp add: t)
qed

lemma repair_eq:
  assumes "sol_LB s \<le> sol_UB s" "length (Solution s) = nat (sol_D s)"
  shows "repair s = Inr (s\<lparr>Solution := map (clamp (sol_LB s) (sol_UB s)) (Solution s)\<rparr>)"
proof -
  have "map (\<lambda>j. if j \<in> set [0..<nat (sol_D s)] then clamp (sol_LB s) (sol_UB s) (Solution s ! j)
                                         else Solution s ! j) [0..<length (Solution s)]
      = map (clamp (sol_LB s) (sol_UB s)) (Solution s)"
    using assms(2) by (intro nth_equalityI) auto
  moreover have "\<forall>i \<in> set [0..<nat (sol_D s)]. i < length (Solution s)"
    using assms(2) by simp
  ultimately show ?thesis
    unfolding repair_def using repair_loop_eq [OF assms(1), of "[0..<nat (sol_D s)]"] by simp
qed

subsection \<open>Unfolding the two loops that may run forever\<close>

lemma resample_stop: "\<not> in_triple i r \<Longrightarrow> resample population i r g = Some (Inr (r, g))"
  by (subst resample.simps) simp

lemma resample_again:
  "in_triple i r \<Longrightarrow> rnd_sample population g = Inr (r', g') \<Longrightarrow>
     resample population i r g = resample population i r' g'"
  by (subst resample.simps) simp

lemma resample_raise:
  "in_triple i r \<Longrightarrow> rnd_sample population g = Inl err \<Longrightarrow>
     resample population i r g = Some (Inl err)"
  by (subst resample.simps) simp

lemma run_loop_exit: "\<not> FEs \<le> self_nFES e \<Longrightarrow> run_loop e FEs g = Some (Inr (e, FEs, g))"
  by (subst run_loop.simps) simp

lemma run_loop_step:
  "FEs \<le> self_nFES e \<Longrightarrow>
   generationStep e (self_Population e) g = Some (Inr (newPopulation, e', g')) \<Longrightarrow>
     run_loop e FEs g = run_loop (e'\<lparr>self_Population := newPopulation\<rparr>) (FEs + self_Np e') g'"
  by (subst run_loop.simps) simp

lemma run_loop_raise:
  "FEs \<le> self_nFES e \<Longrightarrow> generationStep e (self_Population e) g = Some (Inl err) \<Longrightarrow>
     run_loop e FEs g = Some (Inl err)"
  by (subst run_loop.simps) simp

subsection \<open>Candidates\<close>

lemma uniform_vector_length: "length (fst (uniform_vector n lb ub g)) = n"
  by (induction n arbitrary: g) (auto simp: Let_def split: prod.splits, metis fst_conv)

lemma SolutionjDE_init_fields:
  "sol_D (fst (SolutionjDE_init D LB UB g)) = D"
  "sol_LB (fst (SolutionjDE_init D LB UB g)) = LB"
  "sol_UB (fst (SolutionjDE_init D LB UB g)) = UB"
  "sol_F (fst (SolutionjDE_init D LB UB g)) = 0.5"
  "sol_Cr (fst (SolutionjDE_init D LB UB g)) = 0.9"
  "Fitness (fst (SolutionjDE_init D LB UB g)) = PInf"
  "length (Solution (fst (SolutionjDE_init D LB UB g))) = nat D"
  using uniform_vector_length [of "nat D" LB UB g]
  by (auto simp: SolutionjDE_init_def generateSolution_def Let_def split: prod.splits)

subsection \<open>What initialisation and evaluation leave alone\<close>

lemma initPopulation_loop_frame:
  "\<exists>cands. length cands = n \<and>
     fst (initPopulation_loop n e g) = e\<lparr>self_Population := self_Population e @ cands\<rparr>"
proof (induction n arbitrary: e g)
  case 0
  show ?case by simp
next
  case (Suc n)
  obtain s g1 where s: "SolutionjDE_init (self_D e) (self_Lower e) (self_Upper e) g = (s, g1)"
    by (cases "SolutionjDE_init (self_D e) (self_Lower e) (self_Upper e) g")
  from Suc.IH [of "e\<lparr>self_Population := self_Population e @ [s]\<rparr>" g1]
  obtain cands where "length cands = n"
    and "fst (initPopulation_loop n (e\<lparr>self_Population := self_Population e @ [s]\<rparr>) g1)
          = e\<lparr>self_Population := self_Population e @ [s]\<rparr>\<lparr>self_Population := self_Population (e\<lparr>self_Population := self_Population e @ [s]\<rparr>) @ cands\<rparr>"
    by blast
  then show ?case
    by (intro exI [of _ "s # cands"]) (simp add: s)
qed

lemma initPopulation_frame:
  "\<exists>cands. length cands = nat (self_Np e) \<and>
     fst (initPopulation e g) = e\<lparr>self_Population := self_Population e @ cands\<rparr>"
  unfolding initPopulation_def by (rule initPopulation_loop_frame)

lemma evalPopulation_loop_frame:
  "evalPopulation_loop ps e =
     (map (evaluate (FuncEval e)) ps,
      e\<lparr>self_bestSolution := self_bestSolution (snd (evalPopulation_loop ps e)),
        evaluated := evaluated e @ map (evaluate (FuncEval e)) ps\<rparr>)"
proof (induction ps arbitrary: e)
  case Nil
  show ?case by simp
next
  case (Cons p ps)
  let ?p' = "evaluate (FuncEval e) p"
  let ?e1 = "track_best ?p' (e\<lparr>evaluated := evaluated e @ [?p']\<rparr>)"
  have f: "FuncEval ?e1 = FuncEval e" by (simp add: track_best_def)
  have ev: "evaluated ?e1 = evaluated e @ [?p']" by (simp add: track_best_def)
  have upd: "?e1\<lparr>self_bestSolution := b, evaluated := l\<rparr> = e\<lparr>self_bestSolution := b, evaluated := l\<rparr>" for b l
    by (simp add: track_best_def)
  show ?case
    using Cons.IH [of ?e1]
    by (simp add: Let_def split: prod.splits) (metis f ev upd append.assoc append_Cons append_Nil prod.inject snd_conv)
qed

lemma evalPopulation_loop_best:
  "Fitness (self_bestSolution (snd (evalPopulation_loop ps e)))
     = fold min (map (\<lambda>p. Fitness (evaluate (FuncEval e) p)) ps) (Fitness (self_bestSolution e))"
proof (induction ps arbitrary: e)
  case Nil
  show ?case by simp
next
  case (Cons p ps)
  let ?p' = "evaluate (FuncEval e) p"
  let ?e1 = "track_best ?p' (e\<lparr>evaluated := evaluated e @ [?p']\<rparr>)"
  have f: "FuncEval ?e1 = FuncEval e" by (simp add: track_best_def)
  have b: "Fitness (self_bestSolution ?e1) = min (Fitness ?p') (Fitness (self_bestSolution e))"
    by (auto simp: track_best_def min_def)
  show ?case
    using Cons.IH [of ?e1] by (simp add: Let_def f b case_prod_beta)
qed

subsection \<open>A run from the constructor\<close>

lemma evalPopulation_eq:
  "evalPopulation e =
     e\<lparr>self_Population := map (evaluate (FuncEval e)) (self_Population e),
       self_bestSolution := self_bestSolution (evalPopulation e),
       evaluated := evaluated e @ map (evaluate (FuncEval e)) (self_Population e)\<rparr>"
proof -
  obtain ps e' where l: "evalPopulation_loop (self_Population e) e = (ps, e')"
    by (cases "evalPopulation_loop (self_Population e) e")
  from evalPopulation_loop_frame [of "self_Population e" e] l
  have "ps = map (evaluate (FuncEval e)) (self_Population e)"
    and "e' = e\<lparr>self_bestSolution := self_bestSolution e',
                evaluated := evaluated e @ map (evaluate (FuncEval e)) (self_Population e)\<rparr>"
    by simp_all
  then show ?thesis
    by (simp add: evalPopulation_def l) (metis (no_types) engine.surjective engine.update_convs(6,7,12) engine.select_convs(7))
qed

lemma evalPopulation_best:
  "Fitness (self_bestSolution (evalPopulation e))
     = fold min (map (\<lambda>p. Fitness (evaluate (FuncEval e) p)) (self_Population e))
         (Fitness (self_bestSolution e))"
  using evalPopulation_loop_best [of "self_Population e" e]
  by (simp add: evalPopulation_def case_prod_beta)

lemma make_offspring_no_Tao:
  "self_Tao e = None \<Longrightarrow> make_offspring e Population i g = Some (Inl AttributeError)"
  by (simp add: make_offspring_def adapt_F_def attr_def bind_res_def bind_err_def
      case_prod_beta Let_def)

lemma generationStep_no_Tao:
  assumes "self_Tao e = None" "1 \<le> self_Np e"
  shows "generationStep e Population g = Some (Inl AttributeError)"
proof -
  have "[0..<nat (self_Np e)] = 0 # [1..<nat (self_Np e)]"
    using assms(2) by (simp add: upt_conv_Cons)
  then show ?thesis
    by (simp add: generationStep_def make_offspring_no_Tao [OF assms(1)] bind_res_def)
qed

lemma generationStep_empty:
  "self_Np e \<le> 0 \<Longrightarrow> generationStep e Population g = Some (Inr ([], e, g))"
  by (simp add: generationStep_def)

lemma run_loop_no_return:
  assumes "run_loop e FEs g = Some y"
  shows "\<not> (self_Np e \<le> 0 \<and> FEs \<le> self_nFES e)"
proof (rule run_loop.raw_induct
    [where P = "\<lambda>e FEs g y. \<not> (self_Np e \<le> 0 \<and> FEs \<le> self_nFES e)", OF _ assms], goal_cases)
  case (1 f e FEs g y)
  show ?case
  proof
    assume a: "self_Np e \<le> 0 \<and> FEs \<le> self_nFES e"
    let ?e' = "e\<lparr>self_Population := []\<rparr>"
    from a 1(2) have "f ?e' (FEs + self_Np e) g = Some y"
      by (simp add: generationStep_empty)
    from 1(1) [OF this] a show False by simp
  qed
qed

lemma run_loop_diverges:
  "self_Np e \<le> 0 \<Longrightarrow> FEs \<le> self_nFES e \<Longrightarrow> run_loop e FEs g = None"
  using run_loop_no_return [of e FEs g] by (cases "run_loop e FEs g") auto

lemma constructor_eq:
  "SelfAdaptiveDifferentialEvolutionAlgorithm D NP nFES F Cr Lower Upper function g =
     Inr (\<lparr>self_D = D, self_Np = NP, self_nFES = nFES, self_Lower = Lower,
           self_Upper = Upper, self_Population = [],
           self_bestSolution = fst (SolutionjDE_init D Lower Upper g),
           self_Tao = None, self_F = None, self_Cr = None,
           FuncEval = function, evaluated = []\<rparr>, snd (SolutionjDE_init D Lower Upper g))"
  by (simp add: SelfAdaptiveDifferentialEvolutionAlgorithm_def case_prod_beta)

lemma fitness_le_PInf [simp]: "x \<le> PInf"
  by (cases x) auto

lemma fold_min_PInf:
  "fs \<noteq> [] \<Longrightarrow> fold min fs PInf = Min (set fs)"
proof -
  assume ne: "fs \<noteq> []"
  have "fold min fs PInf = Min (set (PInf # fs))"
    by (simp only: Min.set_eq_fold)
  also have "\<dots> = min PInf (Min (set fs))"
    using ne by simp
  also have "\<dots> = Min (set fs)"
    by (simp add: min_absorb2)
  finally show ?thesis .
qed

text \<open>The state in which a run from the constructor enters its loop.\<close>

lemma fresh_run_state:
  assumes c: "SelfAdaptiveDifferentialEvolutionAlgorithm D NP nFES F Cr Lower Upper function g = Inr (e, g1)"
  defines "e2 \<equiv> evalPopulation (fst (initPopulation e g1))"
  shows "self_Np e2 = NP" "self_nFES e2 = nFES" "self_Tao e2 = None"
    "length (self_Population e2) = nat NP" "evaluated e2 = self_Population e2"
    "\<forall>p \<in> set (self_Population e2). Fitness p = function (sol_D p) (Solution p)"
    "Fitness (self_bestSolution e2) = fold min (map Fitness (self_Population e2)) PInf"
proof -
  from c have e: "e = \<lparr>self_D = D, self_Np = NP, self_nFES = nFES, self_Lower = Lower,
           self_Upper = Upper, self_Population = [],
           self_bestSolution = fst (SolutionjDE_init D Lower Upper g),
           self_Tao = None, self_F = None, self_Cr = None,
           FuncEval = function, evaluated = []\<rparr>"
    by (simp add: constructor_eq)
  have ef: "self_Np e = NP" "self_nFES e = nFES" "self_Tao e = None" "FuncEval e = function"
    "self_Population e = []" "evaluated e = []" "Fitness (self_bestSolution e) = PInf"
    by (simp_all add: e SolutionjDE_init_fields)
  obtain cands where cands: "length cands = nat (self_Np e)"
    "fst (initPopulation e g1) = e\<lparr>self_Population := self_Population e @ cands\<rparr>"
    using initPopulation_frame [of e g1] by blast
  let ?e1 = "fst (initPopulation e g1)"
  have e1: "?e1 = e\<lparr>self_Population := cands\<rparr>"
    using cands(2) by (simp add: ef)
  have f1: "FuncEval ?e1 = function" "self_Population ?e1 = cands" "evaluated ?e1 = []"
    "self_Np ?e1 = NP" "self_nFES ?e1 = nFES" "self_Tao ?e1 = None"
    "Fitness (self_bestSolution ?e1) = PInf"
    by (simp_all add: e1 ef)
  have e2: "e2 = ?e1\<lparr>self_Population := map (evaluate function) cands,
       self_bestSolution := self_bestSolution e2,
       evaluated := map (evaluate function) cands\<rparr>"
    unfolding e2_def using evalPopulation_eq [of ?e1] by (simp only: f1 append_Nil)
  show "self_Np e2 = NP" by (subst e2) (simp add: f1)
  show "self_nFES e2 = nFES" by (subst e2) (simp add: f1)
  show "self_Tao e2 = None" by (subst e2) (simp add: f1)
  have pop: "self_Population e2 = map (evaluate function) cands" by (subst e2) simp
  show "length (self_Population e2) = nat NP" using cands(1) by (simp add: pop ef)
  show "evaluated e2 = self_Population e2" by (subst e2) (simp add: pop)
  show "\<forall>p \<in> set (self_Population e2). Fitness p = function (sol_D p) (Solution p)"
    by (auto simp: pop evaluate_def)
  have "Fitness (self_bestSolution e2)
     = fold min (map (\<lambda>p. Fitness (evaluate (FuncEval ?e1) p)) (self_Population ?e1))
         (Fitness (self_bestSolution ?e1))"
    unfolding e2_def by (rule evalPopulation_best)
  also have "\<dots> = fold min (map Fitness (self_Population e2)) PInf"
    by (simp add: pop f1 comp_def)
  finally show "Fitness (self_bestSolution e2) = fold min (map Fitness (self_Population e2)) PInf" .
qed

subsection \<open>One generation\<close>

lemma track_best_frame:
  "track_best p e = e\<lparr>self_bestSolution := self_bestSolution (track_best p e)\<rparr>"
  by (simp add: track_best_def)

lemma track_best_fitness:
  "Fitness (self_bestSolution (track_best p e)) = min (Fitness p) (Fitness (self_bestSolution e))"
  by (auto simp: track_best_def min_def)

lemma generationStep_loop_post:
  assumes "generationStep_loop is e Population acc g = Some (Inr (newPopulation, e', g'))"
  shows "\<exists>offs. length offs = length is
           \<and> newPopulation = acc @ map (survivor (self_Population e) Population) (zip offs is)
           \<and> e' = e\<lparr>self_bestSolution := self_bestSolution e', evaluated := evaluated e @ offs\<rparr>
           \<and> Fitness (self_bestSolution e') = fold min (map Fitness offs) (Fitness (self_bestSolution e))
           \<and> (\<forall>i \<in> set is. i < length (self_Population e))"
  using assms
proof (induction "is" arbitrary: e acc g)
  case Nil
  then show ?case by simp
next
  case (Cons i "is")
  from Cons.prems obtain off g1 where mo: "make_offspring e Population i g = Some (Inr (off, g1))"
    by (auto simp: bind_res_def split: option.splits sum.splits)
  let ?e1 = "track_best off (e\<lparr>evaluated := evaluated e @ [off]\<rparr>)"
  have pop1: "self_Population ?e1 = self_Population e"
    by (simp add: track_best_def)
  have ev1: "evaluated ?e1 = evaluated e @ [off]"
    by (simp add: track_best_def)
  have fit1: "Fitness (self_bestSolution ?e1) = min (Fitness off) (Fitness (self_bestSolution e))"
    by (simp add: track_best_fitness)
  have upd: "?e1\<lparr>self_bestSolution := b, evaluated := l\<rparr> = e\<lparr>self_bestSolution := b, evaluated := l\<rparr>" for b l
    by (simp add: track_best_def)
  from Cons.prems mo have i: "i < length (self_Population e)"
    by (auto simp: bind_res_def item_def Let_def pop1 split: if_splits)
  let ?s = "survivor (self_Population e) Population (off, i)"
  from Cons.prems mo i
  have rest: "generationStep_loop is ?e1 Population (acc @ [?s]) g1 = Some (Inr (newPopulation, e', g'))"
    by (auto simp: bind_res_def item_def Let_def pop1 survivor_def split: if_splits)
  from Cons.IH [OF rest] obtain offs where o:
    "length offs = length is"
    "newPopulation = (acc @ [?s]) @ map (survivor (self_Population ?e1) Population) (zip offs is)"
    "e' = ?e1\<lparr>self_bestSolution := self_bestSolution e', evaluated := evaluated ?e1 @ offs\<rparr>"
    "Fitness (self_bestSolution e') = fold min (map Fitness offs) (Fitness (self_bestSolution ?e1))"
    "\<forall>i \<in> set is. i < length (self_Population ?e1)"
    by blast
  have "e' = e\<lparr>self_bestSolution := self_bestSolution e', evaluated := evaluated e @ off # offs\<rparr>"
    using o(3) by (simp add: upd ev1)
  then show ?case
    using o(1,2,4,5) i by (intro exI [of _ "off # offs"]) (simp add: pop1 fit1)
qed

lemma generationStep_post:
  assumes "generationStep e Population g = Some (Inr (newPopulation, e', g'))"
  shows "\<exists>offs. length offs = nat (self_Np e)
           \<and> newPopulation = map (survivor (self_Population e) Population) (zip offs [0..<nat (self_Np e)])
           \<and> e' = e\<lparr>self_bestSolution := self_bestSolution e', evaluated := evaluated e @ offs\<rparr>
           \<and> Fitness (self_bestSolution e') = fold min (map Fitness offs) (Fitness (self_bestSolution e))
           \<and> nat (self_Np e) \<le> length (self_Population e)"
proof -
  from generationStep_loop_post [OF assms [unfolded generationStep_def]]
  obtain offs where o: "length offs = length [0..<nat (self_Np e)]"
    "newPopulation = [] @ map (survivor (self_Population e) Population) (zip offs [0..<nat (self_Np e)])"
    "e' = e\<lparr>self_bestSolution := self_bestSolution e', evaluated := evaluated e @ offs\<rparr>"
    "Fitness (self_bestSolution e') = fold min (map Fitness offs) (Fitness (self_bestSolution e))"
    "\<forall>i \<in> set [0..<nat (self_Np e)]. i < length (self_Population e)"
    by blast
  have "nat (self_Np e) \<le> length (self_Population e)"
  proof (cases "nat (self_Np e)")
    case 0
    then show ?thesis by simp
  next
    case (Suc k)
    then have "k \<in> set [0..<nat (self_Np e)]" by simp
    with o(5) have "k < length (self_Population e)" by blast
    with Suc show ?thesis by simp
  qed
  with o show ?thesis by (intro exI [of _ offs]) simp
qed

subsection \<open>The main loop\<close>

lemma fold_min_append:
  "fold min (xs @ ys) (b::fitness) = fold min ys (fold min xs b)"
  by simp



subsection \<open>Donor indices\<close>

lemma take_out_length: "j < length xs \<Longrightarrow> length (take_out j xs) = length xs - 1"
  by (simp add: take_out_def)

lemma take_out_distinct:
  assumes "distinct xs"
  shows "distinct (take_out j xs)"
proof -
  have "distinct (take j xs @ drop j xs)" using assms by simp
  then have "set (take j xs) \<inter> set (drop j xs) = {}"
    by (simp only: distinct_append)
  moreover have "set (drop (Suc j) xs) \<subseteq> set (drop j xs)"
    by (rule set_drop_subset_set_drop) simp
  ultimately have "set (take j xs) \<inter> set (drop (Suc j) xs) = {}" by blast
  then show ?thesis
    using assms by (simp add: take_out_def)
qed

lemma take_out_set:
  assumes "distinct xs" "j < length xs"
  shows "set (take_out j xs) = set xs - {xs ! j}"
proof -
  have xs: "xs = take j xs @ xs ! j # drop (Suc j) xs"
    using assms(2) by (rule id_take_nth_drop)
  then have d: "distinct (take j xs @ xs ! j # drop (Suc j) xs)"
    using assms(1) by simp
  have "set xs = set (take j xs) \<union> {xs ! j} \<union> set (drop (Suc j) xs)"
    by (subst xs) auto
  moreover have "xs ! j \<notin> set (take j xs)" "xs ! j \<notin> set (drop (Suc j) xs)"
    using d by auto
  ultimately show ?thesis
    by (auto simp: take_out_def)
qed

lemma rnd_sample_good:
  assumes "rnd_sample population g = Inr (r, g')" "distinct population"
  shows "good_triple population r"
proof -
  let ?n = "length population"
  from assms(1) have n: "3 \<le> ?n"
    by (auto simp: rnd_sample_def Let_def split: if_splits)
  let ?j0 = "draws g (pos g) mod ?n"
  let ?pool1 = "take_out ?j0 population"
  let ?j1 = "draws g (pos g + 1) mod (?n - 1)"
  let ?pool2 = "take_out ?j1 ?pool1"
  let ?j2 = "draws g (pos g + 2) mod (?n - 2)"
  from assms(1) n have r: "r = (population ! ?j0, ?pool1 ! ?j1, ?pool2 ! ?j2)"
    by (auto simp: rnd_sample_def Let_def split: if_splits)
  have j0: "?j0 < ?n" by (rule mod_less_divisor) (use n in linarith)
  have l1: "length ?pool1 = ?n - 1" using j0 by (rule take_out_length)
  have j1: "?j1 < length ?pool1" unfolding l1 by (rule mod_less_divisor) (use n in linarith)
  have l2: "length ?pool2 = ?n - 2" using take_out_length [OF j1] l1 by simp
  have j2: "?j2 < length ?pool2" unfolding l2 by (rule mod_less_divisor) (use n in linarith)
  have d1: "distinct ?pool1" using assms(2) by (rule take_out_distinct)
  have s1: "set ?pool1 = set population - {population ! ?j0}"
    using assms(2) j0 by (rule take_out_set)
  have s2: "set ?pool2 = set ?pool1 - {?pool1 ! ?j1}"
    using d1 j1 by (rule take_out_set)
  have a: "population ! ?j0 \<in> set population" using j0 by simp
  have b: "?pool1 ! ?j1 \<in> set ?pool1" using j1 by simp
  have c: "?pool2 ! ?j2 \<in> set ?pool2" using j2 by simp
  from a b c s1 s2 show ?thesis
    unfolding r good_triple_def by auto
qed

lemma resample_post:
  assumes "resample population i r g = Some y"
  shows "distinct population \<and> good_triple population r \<longrightarrow>
           (\<forall>r' g'. y = Inr (r', g') \<longrightarrow> good_triple population r' \<and> \<not> in_triple i r')"
proof (rule resample.raw_induct
    [where P = "\<lambda>population i r g y. distinct population \<and> good_triple population r \<longrightarrow>
           (\<forall>r' g'. y = Inr (r', g') \<longrightarrow> good_triple population r' \<and> \<not> in_triple i r')",
     OF _ assms], goal_cases)
  case (1 f population i r g y)
  show ?case
  proof (intro impI allI)
    fix r' g'
    assume d: "distinct population \<and> good_triple population r" and y: "y = Inr (r', g')"
    show "good_triple population r' \<and> \<not> in_triple i r'"
    proof (cases "in_triple i r")
      case False
      with 1(2) y d show ?thesis by simp
    next
      case True
      with 1(2) y obtain r1 g1 where s: "rnd_sample population g = Inr (r1, g1)"
        and rec: "f population i r1 g1 = Some (Inr (r', g'))"
        by (auto split: sum.splits)
      from rnd_sample_good [OF s] d have "good_triple population r1" by simp
      with 1(1) [OF rec] d show ?thesis by simp
    qed
  qed
qed

lemma donors_post:
  assumes "donors Np i g = Some (Inr (r, g'))"
  shows "good_triple [0..<nat Np] r \<and> \<not> in_triple i r"
proof -
  from assms obtain r1 g1 where s: "rnd_sample [0..<nat Np] g = Inr (r1, g1)"
    and rs: "resample [0..<nat Np] i r1 g1 = Some (Inr (r, g'))"
    by (auto simp: donors_def split: sum.splits)
  have "good_triple [0..<nat Np] r1"
    by (rule rnd_sample_good [OF s]) simp
  with resample_post [OF rs] show ?thesis by simp
qed

lemma make_offspring_parts:
  assumes "make_offspring e Population i g = Some (Inr (off, g'))"
  shows "\<exists>s2 g2 r g3 s3 s4.
           donors (self_Np e) i g2 = Some (Inr (r, g3))
         \<and> crossover e Population i r (fst (draw_jrand (self_Np e) g3)) [0..<nat (self_D e)] s2
              (snd (draw_jrand (self_Np e) g3)) = Inr (s3, g')
         \<and> repair s3 = Inr s4
         \<and> off = evaluate (FuncEval e) s4"
  using assms
  apply (auto simp: make_offspring_def bind_res_def Let_def case_prod_beta
      split: option.splits sum.splits prod.splits)
  apply blast
  done

subsection \<open>The worked run\<close>

lemmas offspring_eval =
  make_offspring_def SolutionjDE_init_def generateSolution_def adapt_F_def adapt_Cr_def
  donors_def rnd_sample_def take_out_def in_triple_def draw_jrand_def
  py_int_def mutant_def inherited_def item_def attr_def bind_err_def bind_res_def
  repair_def repair_at_def evaluate_def rnd_random_def Let_def upt_rec

lemma off0:
  assumes "self_D e = 1" "self_Np e = 4" "self_Lower e = -1" "self_Upper e = 1"
    "self_Tao e = Some (1/10)" "self_F e = Some (1/2)" "self_Cr e = Some (9/10)" "FuncEval e = sphere"
  shows "make_offspring e pop0 0 \<lparr>draws = tape, pos = 5\<rparr>
           = Some (Inr (cand 0 (Fin 0), \<lparr>draws = tape, pos = 13\<rparr>))"
  by (simp add: offspring_eval assms resample_stop tape_def pop0_def cand_def sphere_def)

lemma off1:
  assumes "self_D e = 1" "self_Np e = 4" "self_Lower e = -1" "self_Upper e = 1"
    "self_Tao e = Some (1/10)" "self_F e = Some (1/2)" "self_Cr e = Some (9/10)" "FuncEval e = sphere"
  shows "make_offspring e pop0 (Suc 0) \<lparr>draws = tape, pos = 13\<rparr>
           = Some (Inr (cand (-1/2) (Fin (1/4)), \<lparr>draws = tape, pos = 21\<rparr>))"
  by (simp add: offspring_eval assms resample_stop tape_def pop0_def cand_def sphere_def)

lemma off2:
  assumes "self_D e = 1" "self_Np e = 4" "self_Lower e = -1" "self_Upper e = 1"
    "self_Tao e = Some (1/10)" "self_F e = Some (1/2)" "self_Cr e = Some (9/10)" "FuncEval e = sphere"
  shows "make_offspring e pop0 2 \<lparr>draws = tape, pos = 21\<rparr>
           = Some (Inr (cand (3/8) (Fin (9/64)), \<lparr>draws = tape, pos = 29\<rparr>))"
  by (simp add: offspring_eval assms resample_stop tape_def pop0_def cand_def sphere_def)

lemma off3:
  assumes "self_D e = 1" "self_Np e = 4" "self_Lower e = -1" "self_Upper e = 1"
    "self_Tao e = Some (1/10)" "self_F e = Some (1/2)" "self_Cr e = Some (9/10)" "FuncEval e = sphere"
  shows "make_offspring e pop0 3 \<lparr>draws = tape, pos = 29\<rparr>
           = Some (Inr (cand (-1/8) (Fin (1/64)), \<lparr>draws = tape, pos = 37\<rparr>))"
  by (simp add: offspring_eval assms resample_stop tape_def pop0_def cand_def sphere_def)

lemma engine0_eq:
  "engine0 = \<lparr>self_D = 1, self_Np = 4, self_nFES = 4, self_Lower = -1, self_Upper = 1,
       self_Population = [], self_bestSolution = cand 0 PInf,
       self_Tao = Some (1/10), self_F = Some (1/2), self_Cr = Some (9/10),
       FuncEval = sphere, evaluated = []\<rparr>"
  by (simp add: engine0_def constructor_eq SolutionjDE_init_def generateSolution_def
      rnd_random_def Let_def tape_def cand_def)

lemma rng0_eq:
  "snd (projr (SelfAdaptiveDifferentialEvolutionAlgorithm 1 4 4 0.5 0.9 (-1) 1 sphere
                    \<lparr>draws = tape, pos = 0\<rparr>)) = \<lparr>draws = tape, pos = 1\<rparr>"
  by (simp add: constructor_eq SolutionjDE_init_def generateSolution_def
      rnd_random_def Let_def)

lemma init0:
  "initPopulation engine0 \<lparr>draws = tape, pos = Suc 0\<rparr>
     = (engine0\<lparr>self_Population := [cand (1/2) PInf, cand (-1/2) PInf, cand (3/4) PInf, cand (-1/4) PInf]\<rparr>,
        \<lparr>draws = tape, pos = 5\<rparr>)"
proof -
  have n: "initPopulation engine0 g = initPopulation_loop (Suc (Suc (Suc (Suc 0)))) engine0 g" for g
    by (simp add: initPopulation_def engine0_eq eval_nat_numeral)
  show ?thesis
    unfolding n
    by (simp add: engine0_eq SolutionjDE_init_def generateSolution_def
      rnd_random_def Let_def tape_def cand_def)
qed

lemma eval0:
  "evalPopulation (engine0\<lparr>self_Population := [cand (1/2) PInf, cand (-1/2) PInf, cand (3/4) PInf, cand (-1/4) PInf]\<rparr>)
     = engine1"
  by (simp add: engine0_eq engine1_def evalPopulation_def evaluate_def track_best_def Let_def
      pop0_def cand_def sphere_def)

lemma engine1_fields:
  "self_D engine1 = 1" "self_Np engine1 = 4" "self_Lower engine1 = -1" "self_Upper engine1 = 1"
    "self_Tao engine1 = Some (1/10)" "self_F engine1 = Some (1/2)" "self_Cr engine1 = Some (9/10)"
    "FuncEval engine1 = sphere" "self_Population engine1 = pop0" "self_nFES engine1 = 4"
    "self_bestSolution engine1 = cand (-1/4) (Fin (1/16))" "evaluated engine1 = pop0"
  by (simp_all add: engine1_def)

lemma pop0_items:
  "pop0 \<noteq> []" "length pop0 = 4" "pop0 ! 0 = cand (1/2) (Fin (1/4))" "pop0 ! Suc 0 = cand (-1/2) (Fin (1/4))"
  "pop0 ! 2 = cand (3/4) (Fin (9/16))" "pop0 ! 3 = cand (-1/4) (Fin (1/16))"
  by (simp_all add: pop0_def)

lemma cand_Fitness: "Fitness (cand x f) = f"
  by (simp add: cand_def)

lemma gen1:
  "generationStep engine1 pop0 \<lparr>draws = tape, pos = 5\<rparr>
     = Some (Inr (pop1, engine2, \<lparr>draws = tape, pos = 37\<rparr>))"
proof -
  have idx: "[0..<nat 4] = [0, Suc 0, 2, 3]" by (simp add: upt_rec)
  show ?thesis
    unfolding generationStep_def engine1_fields idx
    by (simp add: off0 off1 off2 off3 engine1_fields pop0_items cand_Fitness track_best_def
        bind_res_def Let_def item_def engine2_def pop1_def offs1_def)
qed

lemma run0:
  "run engine0 \<lparr>draws = tape, pos = 1\<rparr>
     = Some (Inr (Fin 0, engine2\<lparr>self_Population := pop1\<rparr>, \<lparr>draws = tape, pos = 37\<rparr>))"
proof -
  have 1: "run_loop engine1 4 \<lparr>draws = tape, pos = 5\<rparr>
         = run_loop (engine2\<lparr>self_Population := pop1\<rparr>) (4 + self_Np engine2) \<lparr>draws = tape, pos = 37\<rparr>"
    by (rule run_loop_step) (simp_all add: engine1_fields gen1)
  have 2: "run_loop (engine2\<lparr>self_Population := pop1\<rparr>) 8 \<lparr>draws = tape, pos = 37\<rparr>
         = Some (Inr (engine2\<lparr>self_Population := pop1\<rparr>, 8, \<lparr>draws = tape, pos = 37\<rparr>))"
    by (rule run_loop_exit) (simp add: engine2_def engine1_def)
  have 3: "self_Np engine2 = 4" by (simp add: engine2_def engine1_def)
  have 4: "Fitness (self_bestSolution engine2) = Fin 0"
    by (simp add: engine2_def cand_Fitness)
  have a: "evalPopulation (fst (initPopulation engine0 \<lparr>draws = tape, pos = Suc 0\<rparr>)) = engine1"
    using init0 eval0 by simp
  have b: "snd (initPopulation engine0 \<lparr>draws = tape, pos = Suc 0\<rparr>) = \<lparr>draws = tape, pos = 5\<rparr>"
    using init0 by simp
  show ?thesis
    by (simp add: run_def case_prod_beta Let_def a b engine1_fields 1 2 3 4 bind_res_def)
qed

subsection \<open>Least elements\<close>

lemma fold_min_Min: "fold min fs (b::fitness) = Min (insert b (set fs))"
  using Min.set_eq_fold [of b fs] by simp

lemma fold_min_le_start: "fold min fs (b::fitness) \<le> b"
  by (simp add: fold_min_Min)

lemma fold_min_le_each: "x \<in> set fs \<Longrightarrow> fold min fs (b::fitness) \<le> x"
  by (simp add: fold_min_Min)

lemma fold_min_in: "fold min fs (b::fitness) = b \<or> fold min fs b \<in> set fs"
  using Min_in [of "insert b (set fs)"] by (auto simp: fold_min_Min)

subsection \<open>The sampling loop, sample by sample\<close>

lemma rnd_sample_at:
  assumes "3 \<le> length population"
  shows "rnd_sample population (g\<lparr>pos := pos g + 3 * m\<rparr>)
           = Inr (sample_at population g m, g\<lparr>pos := pos g + 3 * Suc m\<rparr>)"
  using assms by (simp add: sample_at_def rnd_sample_def Let_def)

lemma rnd_sample_at_0:
  assumes "3 \<le> length population"
  shows "rnd_sample population g = Inr (sample_at population g 0, g\<lparr>pos := pos g + 3\<rparr>)"
  using rnd_sample_at [OF assms, of g 0] by simp

lemma sample_at_shift:
  "sample_at population (g\<lparr>pos := pos g + 3\<rparr>) m = sample_at population g (Suc m)"
  by (simp add: sample_at_def add.assoc)

lemma resample_first:
  assumes "3 \<le> length population" "in_triple i r"
    "\<forall>m<n. in_triple i (sample_at population g m)"
    "\<not> in_triple i (sample_at population g n)"
  shows "resample population i r g
           = Some (Inr (sample_at population g n, g\<lparr>pos := pos g + 3 * Suc n\<rparr>))"
  using assms(2-4)
proof (induction n arbitrary: r g)
  case 0
  have "resample population i r g = resample population i (sample_at population g 0) (g\<lparr>pos := pos g + 3\<rparr>)"
    by (rule resample_again [OF 0(1) rnd_sample_at_0 [OF assms(1)]])
  also have "\<dots> = Some (Inr (sample_at population g 0, g\<lparr>pos := pos g + 3\<rparr>))"
    by (rule resample_stop [OF 0(3)])
  finally show ?case by simp
next
  case (Suc n)
  let ?g = "g\<lparr>pos := pos g + 3\<rparr>"
  have first: "in_triple i (sample_at population g 0)"
    using Suc.prems(2) by simp
  have "resample population i r g = resample population i (sample_at population g 0) ?g"
    by (rule resample_again [OF Suc.prems(1) rnd_sample_at_0 [OF assms(1)]])
  also have "\<dots> = Some (Inr (sample_at population ?g n, ?g\<lparr>pos := pos ?g + 3 * Suc n\<rparr>))"
  proof (rule Suc.IH [OF first])
    show "\<forall>m<n. in_triple i (sample_at population ?g m)"
      using Suc.prems(2) by (simp add: sample_at_shift)
    show "\<not> in_triple i (sample_at population ?g n)"
      using Suc.prems(3) by (simp add: sample_at_shift)
  qed
  finally show ?case
    by (simp add: sample_at_shift add.assoc)
qed

lemma donors_first:
  assumes "3 \<le> Np" "\<forall>m<n. in_triple i (sample_at [0..<nat Np] g m)"
    "\<not> in_triple i (sample_at [0..<nat Np] g n)"
  shows "donors Np i g = Some (Inr (sample_at [0..<nat Np] g n, g\<lparr>pos := pos g + 3 * Suc n\<rparr>))"
proof -
  let ?pool = "[0..<nat Np]"
  let ?g = "g\<lparr>pos := pos g + 3\<rparr>"
  have len: "3 \<le> length ?pool" using assms(1) by simp
  have d: "donors Np i g = resample ?pool i (sample_at ?pool g 0) ?g"
    by (simp add: donors_def rnd_sample_at_0 [OF len])
  show ?thesis
  proof (cases n)
    case 0
    with assms(3) d show ?thesis by (simp add: resample_stop)
  next
    case (Suc k)
    have first: "in_triple i (sample_at ?pool g 0)"
      using assms(2) Suc by simp
    have "resample ?pool i (sample_at ?pool g 0) ?g
            = Some (Inr (sample_at ?pool ?g k, ?g\<lparr>pos := pos ?g + 3 * Suc k\<rparr>))"
    proof (rule resample_first [OF len first])
      show "\<forall>m<k. in_triple i (sample_at ?pool ?g m)"
        using assms(2) Suc by (simp add: sample_at_shift)
      show "\<not> in_triple i (sample_at ?pool ?g k)"
        using assms(3) Suc by (simp add: sample_at_shift)
    qed
    with d Suc show ?thesis
      by (simp add: sample_at_shift add.assoc)
  qed
qed

lemma resample_no_return:
  assumes "resample population i r g = Some y"
  shows "\<not> (3 \<le> length population \<and> in_triple i r \<and> (\<forall>m. in_triple i (sample_at population g m)))"
proof (rule resample.raw_induct
    [where P = "\<lambda>population i r g y.
       \<not> (3 \<le> length population \<and> in_triple i r \<and> (\<forall>m. in_triple i (sample_at population g m)))",
     OF _ assms], goal_cases)
  case (1 f population i r g y)
  show ?case
  proof
    assume a: "3 \<le> length population \<and> in_triple i r \<and> (\<forall>m. in_triple i (sample_at population g m))"
    let ?g = "g\<lparr>pos := pos g + 3\<rparr>"
    from a have len: "3 \<le> length population" by simp
    from a 1(2) have "f population i (sample_at population g 0) ?g = Some y"
      by (simp add: rnd_sample_at_0 [OF len])
    from 1(1) [OF this] a show False
      by (simp add: sample_at_shift)
  qed
qed

lemma donors_never:
  assumes "3 \<le> Np" "\<forall>m. in_triple i (sample_at [0..<nat Np] g m)"
  shows "donors Np i g = None"
proof -
  let ?pool = "[0..<nat Np]"
  let ?g = "g\<lparr>pos := pos g + 3\<rparr>"
  have len: "3 \<le> length ?pool" using assms(1) by simp
  have d: "donors Np i g = resample ?pool i (sample_at ?pool g 0) ?g"
    by (simp add: donors_def rnd_sample_at_0 [OF len])
  have "resample ?pool i (sample_at ?pool g 0) ?g = None"
  proof (cases "resample ?pool i (sample_at ?pool g 0) ?g")
    case (Some y)
    from resample_no_return [OF Some] len assms(2) show ?thesis
      by (simp add: sample_at_shift)
  qed simp
  with d show ?thesis by simp
qed

subsection \<open>Which candidate is recorded as best\<close>

lemma earliest_least_bounds:
  assumes "earliest_least b new b'"
  shows "Fitness b' \<le> Fitness b" "\<forall>p \<in> set new. Fitness b' \<le> Fitness p"
  using assms by (auto simp: earliest_least_def in_set_conv_nth)

lemma earliest_least_snoc:
  assumes "earliest_least b new c"
  shows "earliest_least b (new @ [p]) (keep_best p c)"
proof (cases "Fitness p < Fitness c")
  case True
  note bd = earliest_least_bounds [OF assms]
  have k: "keep_best p c = p" using True by (simp add: keep_best_def)
  have 1: "Fitness p < Fitness b" using True bd(1) by simp
  have 2: "\<forall>j < length new. Fitness p < Fitness (new ! j)"
    using True bd(2) by (metis less_le_trans nth_mem)
  have "length new < length (new @ [p])
        \<and> p = (new @ [p]) ! length new \<and> Fitness ((new @ [p]) ! length new) < Fitness b
        \<and> (\<forall>j < length new. Fitness ((new @ [p]) ! length new) < Fitness ((new @ [p]) ! j))
        \<and> (\<forall>j < length (new @ [p]). Fitness ((new @ [p]) ! length new) \<le> Fitness ((new @ [p]) ! j))"
    using 1 2 by (auto simp: nth_append less_Suc_eq)
  then show ?thesis
    unfolding earliest_least_def k by blast
next
  case False
  then have k: "keep_best p c = c" and le: "Fitness c \<le> Fitness p"
    by (simp_all add: keep_best_def)
  from assms show ?thesis
    unfolding earliest_least_def k
  proof (elim disjE exE conjE)
    assume a: "\<forall>q \<in> set new. Fitness b \<le> Fitness q" "c = b"
    with le have "(\<forall>q \<in> set (new @ [p]). Fitness b \<le> Fitness q) \<and> c = b" by simp
    then show "((\<forall>q \<in> set (new @ [p]). Fitness b \<le> Fitness q) \<and> c = b)
      \<or> (\<exists>k < length (new @ [p]).
          c = (new @ [p]) ! k \<and> Fitness ((new @ [p]) ! k) < Fitness b
        \<and> (\<forall>j < k. Fitness ((new @ [p]) ! k) < Fitness ((new @ [p]) ! j))
        \<and> (\<forall>j < length (new @ [p]). Fitness ((new @ [p]) ! k) \<le> Fitness ((new @ [p]) ! j)))"
      by blast
  next
    fix k
    assume b: "k < length new" "c = new ! k" "Fitness (new ! k) < Fitness b"
      "\<forall>j < k. Fitness (new ! k) < Fitness (new ! j)"
      "\<forall>j < length new. Fitness (new ! k) \<le> Fitness (new ! j)"
    have "k < length (new @ [p])
        \<and> c = (new @ [p]) ! k \<and> Fitness ((new @ [p]) ! k) < Fitness b
        \<and> (\<forall>j < k. Fitness ((new @ [p]) ! k) < Fitness ((new @ [p]) ! j))
        \<and> (\<forall>j < length (new @ [p]). Fitness ((new @ [p]) ! k) \<le> Fitness ((new @ [p]) ! j))"
      using b le by (auto simp: nth_append less_Suc_eq)
    then show "((\<forall>q \<in> set (new @ [p]). Fitness b \<le> Fitness q) \<and> c = b)
      \<or> (\<exists>k < length (new @ [p]).
          c = (new @ [p]) ! k \<and> Fitness ((new @ [p]) ! k) < Fitness b
        \<and> (\<forall>j < k. Fitness ((new @ [p]) ! k) < Fitness ((new @ [p]) ! j))
        \<and> (\<forall>j < length (new @ [p]). Fitness ((new @ [p]) ! k) \<le> Fitness ((new @ [p]) ! j)))"
      by blast
  qed
qed

lemma earliest_least_fold: "earliest_least b new (fold keep_best new b)"
proof (induction new rule: rev_induct)
  case Nil
  show ?case by (simp add: earliest_least_def)
next
  case (snoc p new)
  from earliest_least_snoc [OF snoc.IH, of p] show ?case by simp
qed

lemma track_best_cand:
  "self_bestSolution (track_best p e) = keep_best p (self_bestSolution e)"
  by (simp add: track_best_def keep_best_def)

lemma evalPopulation_loop_cand:
  "self_bestSolution (snd (evalPopulation_loop ps e))
     = fold keep_best (map (evaluate (FuncEval e)) ps) (self_bestSolution e)"
proof (induction ps arbitrary: e)
  case Nil
  show ?case by simp
next
  case (Cons p ps)
  let ?p' = "evaluate (FuncEval e) p"
  let ?e1 = "track_best ?p' (e\<lparr>evaluated := evaluated e @ [?p']\<rparr>)"
  have f: "FuncEval ?e1 = FuncEval e" by (simp add: track_best_def)
  have b: "self_bestSolution ?e1 = keep_best ?p' (self_bestSolution e)"
    by (simp add: track_best_cand)
  show ?case
    using Cons.IH [of ?e1] by (simp add: Let_def f b case_prod_beta)
qed

lemma evalPopulation_cand:
  "self_bestSolution (evalPopulation e)
     = fold keep_best (map (evaluate (FuncEval e)) (self_Population e)) (self_bestSolution e)"
  using evalPopulation_loop_cand [of "self_Population e" e]
  by (simp add: evalPopulation_def case_prod_beta)

lemma make_offspring_evaluated:
  assumes "make_offspring e Population i g = Some (Inr (off, g'))"
  shows "Fitness off = FuncEval e (sol_D off) (Solution off)"
  using make_offspring_parts [OF assms] by (auto simp: evaluate_def)

lemma generationStep_loop_cand:
  assumes "generationStep_loop is e Population acc g = Some (Inr (newPopulation, e', g'))"
  shows "\<exists>offs. evaluated e' = evaluated e @ offs
           \<and> self_bestSolution e' = fold keep_best offs (self_bestSolution e)
           \<and> (\<forall>p \<in> set offs. Fitness p = FuncEval e (sol_D p) (Solution p))"
  using assms
proof (induction "is" arbitrary: e acc g)
  case Nil
  then show ?case by simp
next
  case (Cons i "is")
  from Cons.prems obtain off g1 where mo: "make_offspring e Population i g = Some (Inr (off, g1))"
    by (auto simp: bind_res_def split: option.splits sum.splits)
  let ?e1 = "track_best off (e\<lparr>evaluated := evaluated e @ [off]\<rparr>)"
  have pop1: "self_Population ?e1 = self_Population e"
    and ev1: "evaluated ?e1 = evaluated e @ [off]"
    and f1: "FuncEval ?e1 = FuncEval e"
    by (simp_all add: track_best_def)
  have b1: "self_bestSolution ?e1 = keep_best off (self_bestSolution e)"
    by (simp add: track_best_cand)
  from Cons.prems mo obtain acc' where
    rest: "generationStep_loop is ?e1 Population acc' g1 = Some (Inr (newPopulation, e', g'))"
    by (auto simp: bind_res_def item_def Let_def pop1 split: if_splits)
  from Cons.IH [OF rest] obtain offs where o:
    "evaluated e' = evaluated ?e1 @ offs"
    "self_bestSolution e' = fold keep_best offs (self_bestSolution ?e1)"
    "\<forall>p \<in> set offs. Fitness p = FuncEval ?e1 (sol_D p) (Solution p)"
    by blast
  from o make_offspring_evaluated [OF mo] show ?case
    by (intro exI [of _ "off # offs"]) (simp add: ev1 b1 f1)
qed

lemma generationStep_cand:
  assumes "generationStep e Population g = Some (Inr (newPopulation, e', g'))"
  shows "\<exists>offs. evaluated e' = evaluated e @ offs
           \<and> length offs = nat (self_Np e)
           \<and> self_bestSolution e' = fold keep_best offs (self_bestSolution e)
           \<and> (\<forall>p \<in> set offs. Fitness p = FuncEval e (sol_D p) (Solution p))
           \<and> FuncEval e' = FuncEval e \<and> self_Np e' = self_Np e"
proof -
  from generationStep_loop_cand [OF assms [unfolded generationStep_def]] obtain offs where o:
    "evaluated e' = evaluated e @ offs"
    "self_bestSolution e' = fold keep_best offs (self_bestSolution e)"
    "\<forall>p \<in> set offs. Fitness p = FuncEval e (sol_D p) (Solution p)"
    by blast
  from generationStep_post [OF assms] obtain offs' where o':
    "length offs' = nat (self_Np e)"
    "e' = e\<lparr>self_bestSolution := self_bestSolution e', evaluated := evaluated e @ offs'\<rparr>"
    by blast
  have ev: "evaluated e' = evaluated e @ offs'" by (subst o'(2)) simp
  have c: "FuncEval e' = FuncEval e" "self_Np e' = self_Np e" by (subst o'(2), simp)+
  from ev o(1) have "offs' = offs" by simp
  with o o'(1) c show ?thesis by (intro exI [of _ offs]) simp
qed

lemma fold_keep_best_append:
  "fold keep_best (xs @ ys) b = fold keep_best ys (fold keep_best xs b)"
  by simp

lemma run_loop_cand:
  assumes "run_loop e FEs g = Some y"
  shows "\<forall>e' FEs' g'. y = Inr (e', FEs', g') \<longrightarrow>
          (\<exists>offs. evaluated e' = evaluated e @ offs
             \<and> self_bestSolution e' = fold keep_best offs (self_bestSolution e)
             \<and> (\<forall>p \<in> set offs. Fitness p = FuncEval e (sol_D p) (Solution p)))"
proof (rule run_loop.raw_induct
    [where P = "\<lambda>e FEs g y. \<forall>e' FEs' g'. y = Inr (e', FEs', g') \<longrightarrow>
          (\<exists>offs. evaluated e' = evaluated e @ offs
             \<and> self_bestSolution e' = fold keep_best offs (self_bestSolution e)
             \<and> (\<forall>p \<in> set offs. Fitness p = FuncEval e (sol_D p) (Solution p)))", OF _ assms],
    goal_cases)
  case (1 f e FEs g y)
  show ?case
  proof (intro allI impI)
    fix e' FEs' g'
    assume y: "y = Inr (e', FEs', g')"
    show "\<exists>offs. evaluated e' = evaluated e @ offs
             \<and> self_bestSolution e' = fold keep_best offs (self_bestSolution e)
             \<and> (\<forall>p \<in> set offs. Fitness p = FuncEval e (sol_D p) (Solution p))"
    proof (cases "FEs \<le> self_nFES e")
      case False
      with 1(2) y have "e' = e" by simp
      then show ?thesis by (intro exI [of _ "[]"]) simp
    next
      case True
      with 1(2) y obtain np e1 g1 where
        gs: "generationStep e (self_Population e) g = Some (Inr (np, e1, g1))"
        and rec: "f (e1\<lparr>self_Population := np\<rparr>) (FEs + self_Np e1) g1 = Some (Inr (e', FEs', g'))"
        by (auto split: option.splits sum.splits)
      from generationStep_cand [OF gs] obtain offs1 where o1:
        "evaluated e1 = evaluated e @ offs1"
        "self_bestSolution e1 = fold keep_best offs1 (self_bestSolution e)"
        "\<forall>p \<in> set offs1. Fitness p = FuncEval e (sol_D p) (Solution p)"
        "FuncEval e1 = FuncEval e"
        by blast
      from 1(1) [OF rec] obtain offs where o:
        "evaluated e' = evaluated (e1\<lparr>self_Population := np\<rparr>) @ offs"
        "self_bestSolution e' = fold keep_best offs (self_bestSolution (e1\<lparr>self_Population := np\<rparr>))"
        "\<forall>p \<in> set offs. Fitness p = FuncEval (e1\<lparr>self_Population := np\<rparr>) (sol_D p) (Solution p)"
        by blast
      from o o1 show ?thesis
        by (intro exI [of _ "offs1 @ offs"]) auto
    qed
  qed
qed

lemma run_cand:
  assumes "run e g = Some (Inr (v, e', g'))"
  shows "\<exists>new. evaluated e' = evaluated e @ new
           \<and> length (self_Population e) + nat (self_Np e) \<le> length new
           \<and> take (length (self_Population e)) new = map (evaluate (FuncEval e)) (self_Population e)
           \<and> (\<forall>p \<in> set new. Fitness p = FuncEval e (sol_D p) (Solution p))
           \<and> self_bestSolution e' = fold keep_best new (self_bestSolution e)
           \<and> v = Fitness (self_bestSolution e')"
proof -
  let ?e1 = "fst (initPopulation e g)"
  let ?g1 = "snd (initPopulation e g)"
  let ?e2 = "evalPopulation ?e1"
  obtain cands where cands: "length cands = nat (self_Np e)"
    "?e1 = e\<lparr>self_Population := self_Population e @ cands\<rparr>"
    using initPopulation_frame [of e g] by blast
  have f1: "FuncEval ?e1 = FuncEval e" "self_Population ?e1 = self_Population e @ cands"
    "evaluated ?e1 = evaluated e" "self_Np ?e1 = self_Np e"
    "self_bestSolution ?e1 = self_bestSolution e"
    by (simp_all add: cands(2))
  let ?ps = "map (evaluate (FuncEval e)) (self_Population e @ cands)"
  have e2: "?e2 = ?e1\<lparr>self_Population := ?ps,
       self_bestSolution := self_bestSolution ?e2,
       evaluated := evaluated e @ ?ps\<rparr>"
    using evalPopulation_eq [of ?e1] by (simp only: f1)
  have f2: "self_Np ?e2 = self_Np e" "evaluated ?e2 = evaluated e @ ?ps" "FuncEval ?e2 = FuncEval e"
    by (subst e2, simp add: f1)+
  have b2: "self_bestSolution ?e2 = fold keep_best ?ps (self_bestSolution e)"
    using evalPopulation_cand [of ?e1] by (simp only: f1)
  from assms obtain FEs' where rl: "run_loop ?e2 (self_Np e) ?g1 = Some (Inr (e', FEs', g'))"
    and v: "v = Fitness (self_bestSolution e')"
    by (auto simp: run_def Let_def case_prod_beta bind_res_def f2 split: option.splits sum.splits)
  from run_loop_cand [OF rl] obtain offs where o:
    "evaluated e' = evaluated ?e2 @ offs"
    "self_bestSolution e' = fold keep_best offs (self_bestSolution ?e2)"
    "\<forall>p \<in> set offs. Fitness p = FuncEval ?e2 (sol_D p) (Solution p)"
    by blast
  have ps: "\<forall>p \<in> set ?ps. Fitness p = FuncEval e (sol_D p) (Solution p)"
    by (auto simp: evaluate_def)
  show ?thesis
    using o v cands(1) ps
    by (intro exI [of _ "?ps @ offs"]) (auto simp: f2 b2)
qed

lemma earliest_least_member:
  assumes "earliest_least b new b'"
  shows "b' = b \<or> b' \<in> set new"
  using assms by (auto simp: earliest_least_def)

lemma earliest_least_Min:
  assumes "earliest_least b new b'" "Fitness b = PInf" "new \<noteq> []"
  shows "Fitness b' = Min (Fitness ` set new)"
proof (rule Min_eqI [symmetric])
  show "finite (Fitness ` set new)" by simp
  show "\<And>y. y \<in> Fitness ` set new \<Longrightarrow> Fitness b' \<le> y"
    using earliest_least_bounds(2) [OF assms(1)] by auto
  show "Fitness b' \<in> Fitness ` set new"
  proof (cases "b' \<in> set new")
    case True
    then show ?thesis by simp
  next
    case False
    with earliest_least_member [OF assms(1)] have "b' = b" by simp
    moreover from assms(3) obtain q where q: "q \<in> set new" by (cases new) auto
    moreover have "Fitness b' \<le> Fitness q"
      using earliest_least_bounds(2) [OF assms(1)] q by simp
    ultimately have "Fitness q = PInf"
      using assms(2) by (metis fitness_le_PInf antisym)
    with q \<open>b' = b\<close> assms(2) show ?thesis by (metis imageI)
  qed
qed

section \<open>The claims\<close>

text \<open>
  C10.  For a candidate with \<open>LB \<le> UB\<close> whose vector has the \<open>D\<close> components that the
  constructor gives it, \<^verbatim>\<open>repair\<close> returns normally, repairing the result again
  changes nothing, every component of the result lies in \<open>[LB, UB]\<close>, and each component
  is \<open>UB\<close> if it was above \<open>UB\<close>, \<open>LB\<close> if it was below \<open>LB\<close>, and unchanged otherwise.
  Nothing but the vector is touched.
\<close>

theorem repair_idempotent_in_bounds:
  assumes "sol_LB s \<le> sol_UB s" and "length (Solution s) = nat (sol_D s)"
  shows "\<exists>s'. repair s = Inr s' \<and> repair s' = Inr s'
           \<and> s' = s\<lparr>Solution := Solution s'\<rparr>
           \<and> length (Solution s') = length (Solution s)
           \<and> (\<forall>x \<in> set (Solution s'). sol_LB s \<le> x \<and> x \<le> sol_UB s)
           \<and> (\<forall>i < length (Solution s).
                 Solution s' ! i =
                   (if Solution s ! i > sol_UB s then sol_UB s
                    else if Solution s ! i < sol_LB s then sol_LB s
                    else Solution s ! i))"
proof -
  let ?c = "clamp (sol_LB s) (sol_UB s)"
  let ?s' = "s\<lparr>Solution := map ?c (Solution s)\<rparr>"
  have 1: "repair s = Inr ?s'" using assms by (rule repair_eq)
  have "repair ?s' = Inr (?s'\<lparr>Solution := map (clamp (sol_LB ?s') (sol_UB ?s')) (Solution ?s')\<rparr>)"
    by (rule repair_eq) (use assms in auto)
  then have 2: "repair ?s' = Inr ?s'"
    using assms(1) by (simp add: clamp_idem)
  have 3: "\<forall>x \<in> set (Solution ?s'). sol_LB s \<le> x \<and> x \<le> sol_UB s"
    using assms(1) clamp_range by auto
  have 4: "\<forall>i < length (Solution s). Solution ?s' ! i =
                   (if Solution s ! i > sol_UB s then sol_UB s
                    else if Solution s ! i < sol_LB s then sol_LB s
                    else Solution s ! i)"
    by (simp add: clamp_def)
  show ?thesis using 1 2 3 4 by (intro exI [of _ ?s']) simp
qed

theorem repair_idempotent_in_bounds_witness:
  "\<exists>s'. repair \<lparr>sol_D = 3, sol_LB = -1, sol_UB = 1, sol_F = 0.5, sol_Cr = 0.9,
                  Solution = [5, -7, 1/2], Fitness = PInf\<rparr> = Inr s'
        \<and> repair s' = Inr s' \<and> (\<forall>x \<in> set (Solution s'). -1 \<le> x \<and> x \<le> 1)"
proof -
  let ?s = "\<lparr>sol_D = 3, sol_LB = -1, sol_UB = 1, sol_F = 0.5, sol_Cr = 0.9,
             Solution = [5, -7, 1/2], Fitness = PInf\<rparr>"
  have h1: "sol_LB ?s \<le> sol_UB ?s" by simp
  have h2: "length (Solution ?s) = nat (sol_D ?s)" by simp
  from repair_idempotent_in_bounds [OF h1 h2]
  obtain s' where "repair ?s = Inr s'" "repair s' = Inr s'"
    and "\<forall>x \<in> set (Solution s'). sol_LB ?s \<le> x \<and> x \<le> sol_UB ?s"
    by blast
  then show ?thesis by auto
qed

text \<open>
  C5, as the code has it.  The constructor checks nothing: for every population size
  and every pair of bounds it returns an engine that stores them as given.
\<close>

theorem constructor_accepts_everything:
  "\<exists>e g'. SelfAdaptiveDifferentialEvolutionAlgorithm D NP nFES F Cr Lower Upper function g = Inr (e, g')
     \<and> self_Np e = NP \<and> self_Lower e = Lower \<and> self_Upper e = Upper"
  by (simp add: constructor_eq)

text \<open>
  C5 as stated fails: a population size of 3, and a lower bound above the upper bound,
  are both accepted.
\<close>

theorem constructor_rejects_counterexample:
  "\<not> isl (SelfAdaptiveDifferentialEvolutionAlgorithm 2 3 20 0.5 0.9 (-1) 1 sphere \<lparr>draws = zeros, pos = 0\<rparr>)
   \<and> \<not> isl (SelfAdaptiveDifferentialEvolutionAlgorithm 2 4 20 0.5 0.9 1 (-1) sphere \<lparr>draws = zeros, pos = 0\<rparr>)"
  by (simp add: constructor_eq)

text \<open>
  C9.  With \<open>0 < nFES < NP\<close>, a run from the constructor returns normally.  The engine
  it leaves is the one after \<^verbatim>\<open>initPopulation\<close> and \<^verbatim>\<open>evalPopulation\<close>, with the
  random source as \<^verbatim>\<open>initPopulation\<close> left it, so no generation step ran.  The
  population has \<open>NP\<close> candidates, the evaluated candidates are exactly these, each once
  and in order, each carries the objective's value at its vector, and the returned
  value is the least fitness among them.
\<close>

theorem small_budget_run:
  assumes "0 < nFES" and "nFES < NP"
    and "SelfAdaptiveDifferentialEvolutionAlgorithm D NP nFES F Cr Lower Upper function g = Inr (e, g1)"
  shows "\<exists>v e'. run e g1 = Some (Inr (v, e', snd (initPopulation e g1)))
           \<and> e' = evalPopulation (fst (initPopulation e g1))
           \<and> length (self_Population e') = nat NP
           \<and> evaluated e' = self_Population e'
           \<and> (\<forall>p \<in> set (self_Population e'). Fitness p = function (sol_D p) (Solution p))
           \<and> v = Min (Fitness ` set (self_Population e'))"
proof -
  let ?e2 = "evalPopulation (fst (initPopulation e g1))"
  let ?g2 = "snd (initPopulation e g1)"
  note st = fresh_run_state [OF assms(3)]
  have "run_loop ?e2 (self_Np ?e2) ?g2 = Some (Inr (?e2, self_Np ?e2, ?g2))"
    by (rule run_loop_exit) (use assms st(1,2) in simp)
  then have r: "run e g1 = Some (Inr (Fitness (self_bestSolution ?e2), ?e2, ?g2))"
    by (simp add: run_def Let_def case_prod_beta bind_res_def)
  have "self_Population ?e2 \<noteq> []"
    using st(4) assms by auto
  then have "Fitness (self_bestSolution ?e2) = Min (Fitness ` set (self_Population ?e2))"
    using st(7) by (simp add: fold_min_PInf)
  with r st(4,5,6) show ?thesis by simp
qed

theorem small_budget_run_witness:
  "\<exists>v e'. run (fst (projr (SelfAdaptiveDifferentialEvolutionAlgorithm 1 4 3 0.5 0.9 (-1) 1 sphere
                                \<lparr>draws = zeros, pos = 0\<rparr>)))
                 (snd (projr (SelfAdaptiveDifferentialEvolutionAlgorithm 1 4 3 0.5 0.9 (-1) 1 sphere
                                \<lparr>draws = zeros, pos = 0\<rparr>)))
          = Some (Inr (v, e'))
        \<and> length (self_Population (fst e')) = 4 \<and> length (evaluated (fst e')) = 4"
proof -
  let ?C = "SelfAdaptiveDifferentialEvolutionAlgorithm 1 4 3 0.5 0.9 (-1) 1 sphere
              \<lparr>draws = zeros, pos = 0\<rparr>"
  have h: "?C = Inr (fst (projr ?C), snd (projr ?C))"
    by (simp add: constructor_eq)
  have "(0::int) < 3" and "(3::int) < 4" by simp_all
  from small_budget_run [OF this h] show ?thesis by auto
qed

text \<open>
  C1, as the code has it.  For a run from the constructor: with \<open>1 \<le> NP \<le> nFES\<close> the
  first generation step raises \<^verbatim>\<open>AttributeError\<close> (no \<^verbatim>\<open>self.Tao\<close>), and so does
  the run; with \<open>NP \<le> 0\<close> and \<open>NP \<le> nFES\<close> the run never returns; and the run returns
  normally exactly when \<open>nFES < NP\<close>.
\<close>

theorem run_without_Tao:
  assumes "SelfAdaptiveDifferentialEvolutionAlgorithm D NP nFES F Cr Lower Upper function g = Inr (e, g1)"
  shows "(1 \<le> NP \<and> NP \<le> nFES \<longrightarrow>
            run e g1 = Some (Inl AttributeError)
            \<and> generationStep (evalPopulation (fst (initPopulation e g1)))
                 (self_Population (evalPopulation (fst (initPopulation e g1))))
                 (snd (initPopulation e g1)) = Some (Inl AttributeError))
       \<and> (NP \<le> 0 \<and> NP \<le> nFES \<longrightarrow> run e g1 = None)
       \<and> ((\<exists>x. run e g1 = Some (Inr x)) \<longleftrightarrow> nFES < NP)"
proof -
  let ?e2 = "evalPopulation (fst (initPopulation e g1))"
  let ?g2 = "snd (initPopulation e g1)"
  note st = fresh_run_state [OF assms]
  have run: "run e g1 = bind_res (run_loop ?e2 NP ?g2) (\<lambda>(e3, FEs, g3).
           Some (Inr (Fitness (self_bestSolution e3), e3, g3)))"
    by (simp add: run_def Let_def case_prod_beta st(1))
  have a: "run e g1 = Some (Inl AttributeError)
            \<and> generationStep ?e2 (self_Population ?e2) ?g2 = Some (Inl AttributeError)"
    if "1 \<le> NP" "NP \<le> nFES"
  proof -
    have gs: "generationStep ?e2 (self_Population ?e2) ?g2 = Some (Inl AttributeError)"
      by (rule generationStep_no_Tao) (use that st(1,3) in simp_all)
    have "run_loop ?e2 NP ?g2 = Some (Inl AttributeError)"
      by (rule run_loop_raise [OF _ gs]) (use that st(2) in simp)
    then show ?thesis using gs by (simp add: run bind_res_def)
  qed
  have b: "run e g1 = None" if "NP \<le> 0" "NP \<le> nFES"
  proof -
    have "run_loop ?e2 NP ?g2 = None"
      by (rule run_loop_diverges) (use that st(1,2) in simp_all)
    then show ?thesis by (simp add: run bind_res_def)
  qed
  have c: "\<exists>x. run e g1 = Some (Inr x)" if "nFES < NP"
  proof -
    have "run_loop ?e2 NP ?g2 = Some (Inr (?e2, NP, ?g2))"
      by (rule run_loop_exit) (use that st(2) in simp)
    then show ?thesis by (simp add: run bind_res_def)
  qed
  have d: "nFES < NP" if "run e g1 = Some (Inr x)" for x
  proof (rule ccontr)
    assume "\<not> nFES < NP"
    then have "NP \<le> nFES" by simp
    then show False using a b that by (cases "1 \<le> NP") auto
  qed
  show ?thesis using a b c d by blast
qed

theorem run_without_Tao_witness:
  "run (fst (projr (SelfAdaptiveDifferentialEvolutionAlgorithm 2 4 20 0.5 0.9 (-1) 1 sphere
                      \<lparr>draws = zeros, pos = 0\<rparr>)))
       (snd (projr (SelfAdaptiveDifferentialEvolutionAlgorithm 2 4 20 0.5 0.9 (-1) 1 sphere
                      \<lparr>draws = zeros, pos = 0\<rparr>)))
     = Some (Inl AttributeError)
   \<and> run (fst (projr (SelfAdaptiveDifferentialEvolutionAlgorithm 2 0 0 0.5 0.9 (-1) 1 sphere
                      \<lparr>draws = zeros, pos = 0\<rparr>)))
       (snd (projr (SelfAdaptiveDifferentialEvolutionAlgorithm 2 0 0 0.5 0.9 (-1) 1 sphere
                      \<lparr>draws = zeros, pos = 0\<rparr>)))
     = None
   \<and> (\<exists>x. run (fst (projr (SelfAdaptiveDifferentialEvolutionAlgorithm 2 4 3 0.5 0.9 (-1) 1 sphere
                      \<lparr>draws = zeros, pos = 0\<rparr>)))
       (snd (projr (SelfAdaptiveDifferentialEvolutionAlgorithm 2 4 3 0.5 0.9 (-1) 1 sphere
                      \<lparr>draws = zeros, pos = 0\<rparr>)))
     = Some (Inr x))"
proof -
  let ?A = "SelfAdaptiveDifferentialEvolutionAlgorithm 2 4 20 0.5 0.9 (-1) 1 sphere
              \<lparr>draws = zeros, pos = 0\<rparr>"
  let ?B = "SelfAdaptiveDifferentialEvolutionAlgorithm 2 0 0 0.5 0.9 (-1) 1 sphere
              \<lparr>draws = zeros, pos = 0\<rparr>"
  let ?C = "SelfAdaptiveDifferentialEvolutionAlgorithm 2 4 3 0.5 0.9 (-1) 1 sphere
              \<lparr>draws = zeros, pos = 0\<rparr>"
  have a: "?A = Inr (fst (projr ?A), snd (projr ?A))"
    and b: "?B = Inr (fst (projr ?B), snd (projr ?B))"
    and c: "?C = Inr (fst (projr ?C), snd (projr ?C))"
    by (simp_all add: constructor_eq)
  from run_without_Tao [OF a] have 1: "run (fst (projr ?A)) (snd (projr ?A)) = Some (Inl AttributeError)"
    by simp
  from run_without_Tao [OF b] have 2: "run (fst (projr ?B)) (snd (projr ?B)) = None"
    by simp
  from run_without_Tao [OF c] have 3: "\<exists>x. run (fst (projr ?C)) (snd (projr ?C)) = Some (Inr x)"
    by simp
  from 1 2 3 show ?thesis by (intro conjI)
qed

text \<open>
  C1 as stated fails for an empty population: with \<open>NP = 0\<close> and \<open>nFES = 0\<close> the
  generation step has nothing to do and raises nothing, the counter never grows, and the
  run does not return at all.
\<close>

theorem run_without_Tao_counterexample:
  "run (fst (projr (SelfAdaptiveDifferentialEvolutionAlgorithm 2 0 0 0.5 0.9 (-1) 1 sphere
                      \<lparr>draws = zeros, pos = 0\<rparr>)))
       (snd (projr (SelfAdaptiveDifferentialEvolutionAlgorithm 2 0 0 0.5 0.9 (-1) 1 sphere
                      \<lparr>draws = zeros, pos = 0\<rparr>)))
     \<noteq> Some (Inl AttributeError)"
proof -
  let ?C = "SelfAdaptiveDifferentialEvolutionAlgorithm 2 0 0 0.5 0.9 (-1) 1 sphere
              \<lparr>draws = zeros, pos = 0\<rparr>"
  let ?e = "fst (projr ?C)" and ?g = "snd (projr ?C)"
  have h: "?C = Inr (?e, ?g)"
    by (simp add: constructor_eq)
  note st = fresh_run_state [OF h]
  have "run_loop (evalPopulation (fst (initPopulation ?e ?g))) 0 (snd (initPopulation ?e ?g)) = None"
    by (rule run_loop_diverges) (use st(1,2) in simp_all)
  then have "run ?e ?g = None"
    using st(1) by (simp add: run_def Let_def case_prod_beta bind_res_def)
  then show ?thesis by simp
qed




text \<open>
  C6.  When the generation step that \<^verbatim>\<open>run\<close> calls returns, it has evaluated one
  offspring per index, the new population has \<open>NP\<close> candidates, and at every index the
  new candidate is the offspring if the offspring's fitness is strictly below the
  parent's and the parent otherwise; so the fitness at an index never goes up, and a tie
  keeps the parent.
\<close>

theorem selection_keeps_the_better:
  assumes "generationStep e (self_Population e) g = Some (Inr (newPopulation, e', g'))"
  shows "\<exists>offs. evaluated e' = evaluated e @ offs
           \<and> length offs = nat (self_Np e)
           \<and> length newPopulation = nat (self_Np e)
           \<and> (\<forall>i < nat (self_Np e).
                  newPopulation ! i =
                    (if Fitness (offs ! i) < Fitness (self_Population e ! i)
                     then offs ! i else self_Population e ! i)
                \<and> Fitness (newPopulation ! i) \<le> Fitness (self_Population e ! i))"
proof -
  from generationStep_post [OF assms] obtain offs where o:
    "length offs = nat (self_Np e)"
    "newPopulation = map (survivor (self_Population e) (self_Population e)) (zip offs [0..<nat (self_Np e)])"
    "e' = e\<lparr>self_bestSolution := self_bestSolution e', evaluated := evaluated e @ offs\<rparr>"
    by blast
  have ev: "evaluated e' = evaluated e @ offs"
    by (subst o(3)) simp
  have sel: "newPopulation ! i =
                    (if Fitness (offs ! i) < Fitness (self_Population e ! i)
                     then offs ! i else self_Population e ! i)"
    if "i < nat (self_Np e)" for i
    using that o(1) by (simp add: o(2) survivor_def)
  have "Fitness (newPopulation ! i) \<le> Fitness (self_Population e ! i)"
    if "i < nat (self_Np e)" for i
    using sel [OF that] by auto
  with sel ev o(1) show ?thesis
    by (intro exI [of _ offs]) (simp add: o(2))
qed

theorem selection_keeps_the_better_witness:
  "\<exists>offs. evaluated engine2 = evaluated engine1 @ offs
      \<and> pop1 ! 0 = offs ! 0 \<and> pop1 ! 1 = pop0 ! 1
      \<and> Fitness (offs ! 1) = Fitness (pop0 ! 1)
      \<and> Fitness (pop1 ! 0) < Fitness (pop0 ! 0)"
proof -
  have g: "generationStep engine1 (self_Population engine1) \<lparr>draws = tape, pos = 5\<rparr>
     = Some (Inr (pop1, engine2, \<lparr>draws = tape, pos = 37\<rparr>))"
    using gen1 by (simp add: engine1_fields)
  from selection_keeps_the_better [OF g] obtain offs where o:
    "evaluated engine2 = evaluated engine1 @ offs"
    by blast
  then have "offs = offs1"
    by (simp add: engine2_def engine1_def)
  with o show ?thesis
    by (intro exI [of _ offs]) (simp add: offs1_def pop1_def pop0_def cand_def)
qed

text \<open>
  C7.  \<^verbatim>\<open>evalPopulation\<close> logs the evaluation of every candidate of the population, and
  a generation step that returns logs \<open>NP\<close> evaluated offspring; after either, the
  recorded best candidate is the earliest least one in the sense of \<open>earliest_least\<close>: the
  previous best unless some newly evaluated fitness is strictly lower, and otherwise the
  first of the newly evaluated candidates with the least fitness, so a tie never
  replaces the earlier best; in particular the recorded best fitness does not go up.
  The update itself replaces the best candidate exactly when the new fitness is strictly
  lower.  A run that returns has evaluated at least the candidates it started with and
  \<open>NP\<close> initial ones, each logged candidate carries the objective's value at its vector,
  the recorded best candidate is the earliest least one over the whole log of the run,
  and the returned value is its fitness: at most the best fitness the engine started
  with and at most every fitness evaluated during the run, one of these values, and, for
  an engine whose initial best is the unevaluated \<open>+inf\<close> of the constructor, the least
  fitness evaluated during the run.
\<close>

theorem best_is_least_evaluated:
  "(evaluated (evalPopulation e) = evaluated e @ map (evaluate (FuncEval e)) (self_Population e)
      \<and> earliest_least (self_bestSolution e) (map (evaluate (FuncEval e)) (self_Population e))
           (self_bestSolution (evalPopulation e))
      \<and> Fitness (self_bestSolution (evalPopulation e)) \<le> Fitness (self_bestSolution e))
   \<and> (generationStep ea Population ga = Some (Inr (newPopulation, ea', ga')) \<longrightarrow>
        (\<exists>offs. evaluated ea' = evaluated ea @ offs
           \<and> length offs = nat (self_Np ea)
           \<and> (\<forall>p \<in> set offs. Fitness p = FuncEval ea (sol_D p) (Solution p))
           \<and> earliest_least (self_bestSolution ea) offs (self_bestSolution ea')
           \<and> Fitness (self_bestSolution ea') \<le> Fitness (self_bestSolution ea)))
   \<and> self_bestSolution (track_best p eb) =
        (if Fitness p < Fitness (self_bestSolution eb) then p else self_bestSolution eb)
   \<and> (run er g = Some (Inr (v, er', g')) \<longrightarrow>
        (\<exists>new. evaluated er' = evaluated er @ new
           \<and> length (self_Population er) + nat (self_Np er) \<le> length new
           \<and> take (length (self_Population er)) new
                = map (evaluate (FuncEval er)) (self_Population er)
           \<and> (\<forall>p \<in> set new. Fitness p = FuncEval er (sol_D p) (Solution p))
           \<and> earliest_least (self_bestSolution er) new (self_bestSolution er')
           \<and> v = Fitness (self_bestSolution er')
           \<and> v \<le> Fitness (self_bestSolution er)
           \<and> (\<forall>p \<in> set new. v \<le> Fitness p)
           \<and> (v = Fitness (self_bestSolution er) \<or> v \<in> Fitness ` set new)
           \<and> (Fitness (self_bestSolution er) = PInf \<and> new \<noteq> [] \<longrightarrow>
                 v = Min (Fitness ` set new))))"
proof (intro conjI impI)
  show "evaluated (evalPopulation e) = evaluated e @ map (evaluate (FuncEval e)) (self_Population e)"
    by (subst evalPopulation_eq) simp
next
  show "earliest_least (self_bestSolution e) (map (evaluate (FuncEval e)) (self_Population e))
           (self_bestSolution (evalPopulation e))"
    unfolding evalPopulation_cand by (rule earliest_least_fold)
next
  show "Fitness (self_bestSolution (evalPopulation e)) \<le> Fitness (self_bestSolution e)"
    unfolding evalPopulation_cand by (rule earliest_least_bounds(1) [OF earliest_least_fold])
next
  assume "generationStep ea Population ga = Some (Inr (newPopulation, ea', ga'))"
  from generationStep_cand [OF this] obtain offs where o:
    "evaluated ea' = evaluated ea @ offs" "length offs = nat (self_Np ea)"
    "self_bestSolution ea' = fold keep_best offs (self_bestSolution ea)"
    "\<forall>p \<in> set offs. Fitness p = FuncEval ea (sol_D p) (Solution p)"
    by blast
  have el: "earliest_least (self_bestSolution ea) offs (self_bestSolution ea')"
    unfolding o(3) by (rule earliest_least_fold)
  from o(1,2,4) el earliest_least_bounds(1) [OF el]
  show "\<exists>offs. evaluated ea' = evaluated ea @ offs
           \<and> length offs = nat (self_Np ea)
           \<and> (\<forall>p \<in> set offs. Fitness p = FuncEval ea (sol_D p) (Solution p))
           \<and> earliest_least (self_bestSolution ea) offs (self_bestSolution ea')
           \<and> Fitness (self_bestSolution ea') \<le> Fitness (self_bestSolution ea)"
    by blast
next
  show "self_bestSolution (track_best p eb) =
        (if Fitness p < Fitness (self_bestSolution eb) then p else self_bestSolution eb)"
    by (simp add: track_best_def)
next
  assume "run er g = Some (Inr (v, er', g'))"
  from run_cand [OF this] obtain new where n:
    "evaluated er' = evaluated er @ new"
    "length (self_Population er) + nat (self_Np er) \<le> length new"
    "take (length (self_Population er)) new = map (evaluate (FuncEval er)) (self_Population er)"
    "\<forall>p \<in> set new. Fitness p = FuncEval er (sol_D p) (Solution p)"
    "self_bestSolution er' = fold keep_best new (self_bestSolution er)"
    "v = Fitness (self_bestSolution er')"
    by blast
  have el: "earliest_least (self_bestSolution er) new (self_bestSolution er')"
    unfolding n(5) by (rule earliest_least_fold)
  note bd = earliest_least_bounds [OF el]
  have 3: "v = Fitness (self_bestSolution er) \<or> v \<in> Fitness ` set new"
    using earliest_least_member [OF el] n(6) by auto
  have 4: "Fitness (self_bestSolution er) = PInf \<and> new \<noteq> [] \<longrightarrow> v = Min (Fitness ` set new)"
    using earliest_least_Min [OF el] n(6) by simp
  from n(1,2,3,4,6) el bd 3 4
  show "\<exists>new. evaluated er' = evaluated er @ new
           \<and> length (self_Population er) + nat (self_Np er) \<le> length new
           \<and> take (length (self_Population er)) new
                = map (evaluate (FuncEval er)) (self_Population er)
           \<and> (\<forall>p \<in> set new. Fitness p = FuncEval er (sol_D p) (Solution p))
           \<and> earliest_least (self_bestSolution er) new (self_bestSolution er')
           \<and> v = Fitness (self_bestSolution er')
           \<and> v \<le> Fitness (self_bestSolution er)
           \<and> (\<forall>p \<in> set new. v \<le> Fitness p)
           \<and> (v = Fitness (self_bestSolution er) \<or> v \<in> Fitness ` set new)
           \<and> (Fitness (self_bestSolution er) = PInf \<and> new \<noteq> [] \<longrightarrow>
                 v = Min (Fitness ` set new))"
    by (intro exI [of _ new]) simp
qed

theorem best_is_least_evaluated_witness:
  "self_bestSolution
     (evalPopulation (engine0\<lparr>self_Population := [cand (1/2) PInf, cand (-1/2) PInf]\<rparr>))
     = cand (1/2) (Fin (1/4))
   \<and> map (evaluate sphere) [cand (1/2) PInf, cand (-1/2) PInf]
       = [cand (1/2) (Fin (1/4)), cand (-1/2) (Fin (1/4))]
   \<and> self_bestSolution engine2 = cand 0 (Fin 0)
   \<and> Fitness (self_bestSolution engine2) \<le> Fitness (self_bestSolution engine1)
   \<and> (\<exists>new. evaluated (engine2\<lparr>self_Population := pop1\<rparr>) = evaluated engine0 @ new
         \<and> 4 \<le> length new
         \<and> self_bestSolution (engine2\<lparr>self_Population := pop1\<rparr>) = new ! 4
         \<and> Fin 0 = Min (Fitness ` set new))"
proof -
  let ?t = "engine0\<lparr>self_Population := [cand (1/2) PInf, cand (-1/2) PInf]\<rparr>"
  let ?a = "cand (1/2) (Fin (1/4))" and ?c = "cand (-1/2) (Fin (1/4))"
  have g: "generationStep engine1 pop0 \<lparr>draws = tape, pos = 5\<rparr>
     = Some (Inr (pop1, engine2, \<lparr>draws = tape, pos = 37\<rparr>))"
    by (rule gen1)
  have r: "run engine0 \<lparr>draws = tape, pos = 1\<rparr>
     = Some (Inr (Fin 0, engine2\<lparr>self_Population := pop1\<rparr>, \<lparr>draws = tape, pos = 37\<rparr>))"
    by (rule run0)
  note t = best_is_least_evaluated
    [of ?t engine1 pop0 "\<lparr>draws = tape, pos = 5\<rparr>" pop1 engine2 "\<lparr>draws = tape, pos = 37\<rparr>"
        "cand 0 (Fin 0)" engine0 engine0 "\<lparr>draws = tape, pos = 1\<rparr>" "Fin 0"
        "engine2\<lparr>self_Population := pop1\<rparr>" "\<lparr>draws = tape, pos = 37\<rparr>"]
  have m: "map (evaluate sphere) [cand (1/2) PInf, cand (-1/2) PInf] = [?a, ?c]"
    by (simp add: evaluate_def cand_def sphere_def)
  have tf: "FuncEval ?t = sphere" "self_Population ?t = [cand (1/2) PInf, cand (-1/2) PInf]"
    "Fitness (self_bestSolution ?t) = PInf"
    by (simp_all add: engine0_eq cand_def)
  from t have "earliest_least (self_bestSolution ?t)
      (map (evaluate (FuncEval ?t)) (self_Population ?t)) (self_bestSolution (evalPopulation ?t))"
    by blast
  then have el: "earliest_least (self_bestSolution ?t) [?a, ?c] (self_bestSolution (evalPopulation ?t))"
    by (simp only: tf m)
  have 1: "self_bestSolution (evalPopulation ?t) = ?a"
    using el tf(3) by (auto simp: earliest_least_def less_Suc_eq cand_Fitness)
  from t g have 2: "Fitness (self_bestSolution engine2) \<le> Fitness (self_bestSolution engine1)"
    by blast
  have b2: "self_bestSolution engine2 = cand 0 (Fin 0)"
    by (simp add: engine2_def)
  from t r obtain new where n:
    "evaluated (engine2\<lparr>self_Population := pop1\<rparr>) = evaluated engine0 @ new"
    "length (self_Population engine0) + nat (self_Np engine0) \<le> length new"
    "Fitness (self_bestSolution engine0) = PInf \<and> new \<noteq> [] \<longrightarrow> Fin 0 = Min (Fitness ` set new)"
    by blast
  have e0: "evaluated engine0 = []" "self_Population engine0 = []" "self_Np engine0 = 4"
    "Fitness (self_bestSolution engine0) = PInf"
    by (simp_all add: engine0_eq cand_def)
  have new: "new = pop0 @ offs1"
    using n(1) by (simp add: e0 engine2_def engine1_def)
  have 3: "4 \<le> length new" using n(2) by (simp add: e0)
  have 4: "self_bestSolution (engine2\<lparr>self_Population := pop1\<rparr>) = new ! 4"
    by (simp add: new engine2_def pop0_def offs1_def)
  have "new \<noteq> []" using 3 by auto
  with n(3) e0(4) have 5: "Fin 0 = Min (Fitness ` set new)" by blast
  from 1 m b2 2 n(1) 3 4 5 show ?thesis by blast
qed

text \<open>
  C8.  Every offspring that is produced for parent index \<open>i\<close> was built by the crossover
  loop from a donor triple returned by the sampling loop, and the three indices of that
  triple are pairwise distinct, all different from \<open>i\<close>, and below \<open>NP\<close>; the same holds
  for every triple the sampling loop returns.  The loop is rejection sampling of whole
  triples: each call of \<^verbatim>\<open>rnd.sample\<close> draws a fresh triple from \<open>0..NP-1\<close>, and if the
  first \<open>n\<close> triples each hold the index and the next one does not, the loop returns that
  next triple, having read \<open>n + 1\<close> samples.  If every triple the source yields holds the
  index, as with \<open>NP = 3\<close>, the loop never returns; below three candidates the first
  sample raises \<^verbatim>\<open>ValueError\<close>.
\<close>

theorem donors_distinct:
  "(make_offspring e Population i g = Some (Inr (off, g')) \<longrightarrow>
      (\<exists>r0 r1 r2 s2 g2 g3 s3 s4.
           donors (self_Np e) i g2 = Some (Inr ((r0, r1, r2), g3))
         \<and> crossover e Population i (r0, r1, r2) (fst (draw_jrand (self_Np e) g3))
              [0..<nat (self_D e)] s2 (snd (draw_jrand (self_Np e) g3)) = Inr (s3, g')
         \<and> repair s3 = Inr s4
         \<and> off = evaluate (FuncEval e) s4
         \<and> r0 \<noteq> r1 \<and> r0 \<noteq> r2 \<and> r1 \<noteq> r2
         \<and> r0 \<noteq> i \<and> r1 \<noteq> i \<and> r2 \<noteq> i
         \<and> r0 < nat (self_Np e) \<and> r1 < nat (self_Np e) \<and> r2 < nat (self_Np e)))
   \<and> (donors Np j gd = Some (Inr ((d0, d1, d2), gd')) \<longrightarrow>
         d0 \<noteq> d1 \<and> d0 \<noteq> d2 \<and> d1 \<noteq> d2 \<and> d0 \<noteq> j \<and> d1 \<noteq> j \<and> d2 \<noteq> j
       \<and> d0 < nat Np \<and> d1 < nat Np \<and> d2 < nat Np)
   \<and> (3 \<le> Np \<longrightarrow>
         rnd_sample [0..<nat Np] (gd\<lparr>pos := pos gd + 3 * m\<rparr>)
           = Inr (sample_at [0..<nat Np] gd m, gd\<lparr>pos := pos gd + 3 * Suc m\<rparr>))
   \<and> (3 \<le> Np \<and> (\<forall>m<n. in_triple j (sample_at [0..<nat Np] gd m))
          \<and> \<not> in_triple j (sample_at [0..<nat Np] gd n) \<longrightarrow>
         donors Np j gd
           = Some (Inr (sample_at [0..<nat Np] gd n, gd\<lparr>pos := pos gd + 3 * Suc n\<rparr>)))
   \<and> (3 \<le> Np \<and> (\<forall>m. in_triple j (sample_at [0..<nat Np] gd m)) \<longrightarrow> donors Np j gd = None)
   \<and> (Np < 3 \<longrightarrow> donors Np j gd = Some (Inl ValueError))"
proof (intro conjI impI)
  assume m: "make_offspring e Population i g = Some (Inr (off, g'))"
  from make_offspring_parts [OF m] obtain s2 g2 r g3 s3 s4 where p:
    "donors (self_Np e) i g2 = Some (Inr (r, g3))"
    "crossover e Population i r (fst (draw_jrand (self_Np e) g3)) [0..<nat (self_D e)] s2
              (snd (draw_jrand (self_Np e) g3)) = Inr (s3, g')"
    "repair s3 = Inr s4" "off = evaluate (FuncEval e) s4"
    by blast
  obtain r0 r1 r2 where r: "r = (r0, r1, r2)" by (cases r) auto
  from donors_post [OF p(1)] have
    "r0 \<noteq> r1 \<and> r0 \<noteq> r2 \<and> r1 \<noteq> r2
         \<and> r0 \<noteq> i \<and> r1 \<noteq> i \<and> r2 \<noteq> i
         \<and> r0 < nat (self_Np e) \<and> r1 < nat (self_Np e) \<and> r2 < nat (self_Np e)"
    by (auto simp: r good_triple_def in_triple_def)
  with p show "\<exists>r0 r1 r2 s2 g2 g3 s3 s4.
           donors (self_Np e) i g2 = Some (Inr ((r0, r1, r2), g3))
         \<and> crossover e Population i (r0, r1, r2) (fst (draw_jrand (self_Np e) g3))
              [0..<nat (self_D e)] s2 (snd (draw_jrand (self_Np e) g3)) = Inr (s3, g')
         \<and> repair s3 = Inr s4
         \<and> off = evaluate (FuncEval e) s4
         \<and> r0 \<noteq> r1 \<and> r0 \<noteq> r2 \<and> r1 \<noteq> r2
         \<and> r0 \<noteq> i \<and> r1 \<noteq> i \<and> r2 \<noteq> i
         \<and> r0 < nat (self_Np e) \<and> r1 < nat (self_Np e) \<and> r2 < nat (self_Np e)"
    unfolding r by blast
next
  assume d: "donors Np j gd = Some (Inr ((d0, d1, d2), gd'))"
  from donors_post [OF d]
  show "d0 \<noteq> d1" "d0 \<noteq> d2" "d1 \<noteq> d2" "d0 \<noteq> j" "d1 \<noteq> j" "d2 \<noteq> j"
    "d0 < nat Np" "d1 < nat Np" "d2 < nat Np"
    by (auto simp: good_triple_def in_triple_def)
next
  assume "3 \<le> Np"
  then show "rnd_sample [0..<nat Np] (gd\<lparr>pos := pos gd + 3 * m\<rparr>)
           = Inr (sample_at [0..<nat Np] gd m, gd\<lparr>pos := pos gd + 3 * Suc m\<rparr>)"
    by (intro rnd_sample_at) simp
next
  assume "3 \<le> Np \<and> (\<forall>m<n. in_triple j (sample_at [0..<nat Np] gd m))
          \<and> \<not> in_triple j (sample_at [0..<nat Np] gd n)"
  then show "donors Np j gd
           = Some (Inr (sample_at [0..<nat Np] gd n, gd\<lparr>pos := pos gd + 3 * Suc n\<rparr>))"
    by (intro donors_first) simp_all
next
  assume "3 \<le> Np \<and> (\<forall>m. in_triple j (sample_at [0..<nat Np] gd m))"
  then show "donors Np j gd = None"
    by (intro donors_never) simp_all
next
  assume "Np < 3"
  then have "nat Np < 3" by simp
  then show "donors Np j gd = Some (Inl ValueError)"
    by (simp add: donors_def rnd_sample_def Let_def)
qed

theorem donors_distinct_witness:
  "(\<exists>r0 r1 r2 g2 g3.
      donors 4 0 g2 = Some (Inr ((r0, r1, r2), g3))
    \<and> r0 \<noteq> r1 \<and> r0 \<noteq> r2 \<and> r1 \<noteq> r2 \<and> r0 \<noteq> 0 \<and> r1 \<noteq> 0 \<and> r2 \<noteq> 0
    \<and> r0 < 4 \<and> r1 < 4 \<and> r2 < 4)
   \<and> sample_at [0..<nat 4] \<lparr>draws = tape4, pos = 0\<rparr> 0 = (0, 2, 3)
   \<and> sample_at [0..<nat 4] \<lparr>draws = tape4, pos = 0\<rparr> 1 = (1, 2, 3)
   \<and> donors 4 0 \<lparr>draws = tape4, pos = 0\<rparr> = Some (Inr ((1, 2, 3), \<lparr>draws = tape4, pos = 6\<rparr>))
   \<and> donors 3 0 \<lparr>draws = zeros, pos = 0\<rparr> = None
   \<and> donors 2 0 \<lparr>draws = zeros, pos = 0\<rparr> = Some (Inl ValueError)"
proof -
  have m: "make_offspring engine1 pop0 0 \<lparr>draws = tape, pos = 5\<rparr>
           = Some (Inr (cand 0 (Fin 0), \<lparr>draws = tape, pos = 13\<rparr>))"
    by (rule off0) (simp_all add: engine1_fields)
  have n: "self_Np engine1 = 4" by (simp add: engine1_fields)
  let ?g = "\<lparr>draws = tape4, pos = 0\<rparr>"
  let ?z = "\<lparr>draws = zeros, pos = 0\<rparr>"
  have s0: "sample_at [0..<nat 4] ?g 0 = (0, 2, 3)"
    by (simp add: sample_at_def rnd_sample_def take_out_def tape4_def Let_def upt_rec)
  have s1: "sample_at [0..<nat 4] ?g 1 = (1, 2, 3)"
    by (simp add: sample_at_def rnd_sample_def take_out_def tape4_def Let_def upt_rec)
  have h: "(3::int) \<le> 4 \<and> (\<forall>m<1. in_triple 0 (sample_at [0..<nat 4] ?g m))
          \<and> \<not> in_triple 0 (sample_at [0..<nat 4] ?g 1)"
    using s0 s1 by (simp add: in_triple_def)
  have z: "sample_at [0..<nat 3] ?z m = (0, 1, 2)" for m
    by (simp add: sample_at_def rnd_sample_def take_out_def zeros_def Let_def upt_rec)
  have hz: "(3::int) \<le> 3 \<and> (\<forall>m. in_triple 0 (sample_at [0..<nat 3] ?z m))"
    using z by (simp add: in_triple_def)
  note t = donors_distinct [of engine1 pop0 0 "\<lparr>draws = tape, pos = 5\<rparr>" "cand 0 (Fin 0)"
      "\<lparr>draws = tape, pos = 13\<rparr>"]
  from t m have 1: "\<exists>r0 r1 r2 g2 g3.
      donors 4 0 g2 = Some (Inr ((r0, r1, r2), g3))
    \<and> r0 \<noteq> r1 \<and> r0 \<noteq> r2 \<and> r1 \<noteq> r2 \<and> r0 \<noteq> 0 \<and> r1 \<noteq> 0 \<and> r2 \<noteq> 0
    \<and> r0 < 4 \<and> r1 < 4 \<and> r2 < 4"
    unfolding n by simp blast
  from donors_distinct [of _ _ _ _ _ _ 4 0 ?g _ _ _ _ _ 1] h
  have 2: "donors 4 0 ?g = Some (Inr ((1, 2, 3), \<lparr>draws = tape4, pos = 6\<rparr>))"
    using s1 by simp
  from donors_distinct [of _ _ _ _ _ _ 3 0 ?z] hz
  have 3: "donors 3 0 ?z = None"
    by blast
  from donors_distinct [of _ _ _ _ _ _ 2 0 ?z]
  have 4: "donors 2 0 ?z = Some (Inl ValueError)"
    by simp
  from 1 s0 s1 2 3 4 show ?thesis by (intro conjI)
qed

text \<open>
  C3 on the code.  An offspring at index \<open>0\<close> whose self-adapted values are \<open>F = 1/4\<close> and
  \<open>Cr = 0\<close>, on an engine whose own attributes are \<open>F = 1/2\<close> and \<open>Cr = 9/10\<close>.  The donors
  are \<open>1, 2, 3\<close>, \<open>jrand\<close> is \<open>2\<close>, and the crossover draw for dimension \<open>0\<close> is \<open>1/2\<close>.
  With the offspring's own values the draw is not below \<open>Cr = 0\<close> and the dimension would
  keep the parent's \<open>1/2\<close>; a mutant with the offspring's \<open>F\<close> would be \<open>-1/4\<close>.  The code
  compares the draw with the engine's \<open>9/10\<close> and scales with the engine's \<open>1/2\<close>: the
  component is \<open>0\<close>.
\<close>

theorem engine_F_and_Cr_used:
  "make_offspring engine1 pop0 0 \<lparr>draws = tape3, pos = 0\<rparr>
     = Some (Inr (\<lparr>sol_D = 1, sol_LB = -1, sol_UB = 1, sol_F = 1/4, sol_Cr = 0,
                   Solution = [0], Fitness = Fin 0\<rparr>, \<lparr>draws = tape3, pos = 10\<rparr>))
   \<and> self_F engine1 = Some (1/2) \<and> self_Cr engine1 = Some (9/10)
   \<and> donors (self_Np engine1) 0 \<lparr>draws = tape3, pos = 5\<rparr>
        = Some (Inr ((1, 2, 3), \<lparr>draws = tape3, pos = 8\<rparr>))
   \<and> draw_jrand (self_Np engine1) \<lparr>draws = tape3, pos = 8\<rparr> = (2, \<lparr>draws = tape3, pos = 9\<rparr>)
   \<and> fst (rnd_random \<lparr>draws = tape3, pos = 9\<rparr>) = 1/2
   \<and> Solution (pop0 ! 0) = [1/2]
   \<and> Solution (pop0 ! 1) ! 0 + (1/2) * (Solution (pop0 ! 2) ! 0 - Solution (pop0 ! 3) ! 0) = 0
   \<and> Solution (pop0 ! 1) ! 0 + (1/4) * (Solution (pop0 ! 2) ! 0 - Solution (pop0 ! 3) ! 0) = -1/4"
  apply (intro conjI)
          apply (simp add: offspring_eval engine1_fields resample_stop tape3_def pop0_def cand_def sphere_def)
         apply (simp_all add: engine1_fields donors_def rnd_sample_def take_out_def in_triple_def
      resample_stop draw_jrand_def py_int_def rnd_random_def Let_def upt_rec tape3_def pop0_def cand_def)
  done

text \<open>
  C4 on the code.  The offspring at index \<open>1\<close> of the worked run, with \<open>D = 1\<close> and
  \<open>NP = 4\<close>.  \<open>jrand\<close> is drawn below \<open>NP\<close>, here \<open>2\<close>, which is no dimension index.  The
  crossover draw \<open>15/16\<close> is not below \<open>Cr = 9/10\<close>, so no dimension is mutated: the
  offspring has its parent's vector, although the mutant value in the only dimension
  is \<open>1\<close> and the parent's is \<open>-1/2\<close>.
\<close>

theorem jrand_not_a_dimension:
  "make_offspring engine1 pop0 1 \<lparr>draws = tape, pos = 13\<rparr>
     = Some (Inr (cand (-1/2) (Fin (1/4)), \<lparr>draws = tape, pos = 21\<rparr>))
   \<and> self_D engine1 = 1 \<and> self_Np engine1 = 4 \<and> self_Cr engine1 = Some (9/10)
   \<and> donors (self_Np engine1) 1 \<lparr>draws = tape, pos = 16\<rparr>
        = Some (Inr ((0, 2, 3), \<lparr>draws = tape, pos = 19\<rparr>))
   \<and> draw_jrand (self_Np engine1) \<lparr>draws = tape, pos = 19\<rparr> = (2, \<lparr>draws = tape, pos = 20\<rparr>)
   \<and> fst (rnd_random \<lparr>draws = tape, pos = 20\<rparr>) = 15/16
   \<and> mutant engine1 pop0 (0, 2, 3) 0 = Inr 1
   \<and> Solution (pop0 ! 1) = [-1/2]
   \<and> Solution (cand (-1/2) (Fin (1/4))) = Solution (pop0 ! 1)"
  apply (intro conjI)
           apply (simp add: off1 engine1_fields)
          apply (simp_all add: engine1_fields donors_def rnd_sample_def take_out_def in_triple_def
      resample_stop draw_jrand_def py_int_def rnd_random_def Let_def upt_rec tape_def pop0_def cand_def
      mutant_def item_def attr_def bind_err_def)
  done

end
